theory Spec2Isabelle
  imports Main "HOL-Library.Word" "HOL-Library.Multiset"
begin

unbundle bit_operations_syntax

section \<open>The xv6 kernel log: data model\<close>

text \<open>
  \<^verbatim>\<open>klog.h\<close> declares the log entry and the per-CPU ring. \<^verbatim>\<open>uint\<close> is xv6's
  32-bit unsigned integer, so every \<^verbatim>\<open>uint\<close> field and loop counter is a \<open>32 word\<close>:
  \<open>+\<close> and \<open>-\<close> wrap, \<open><\<close> compares unsigned. Arrays are lists. The spin locks that
  bracket every critical section leave no trace in a sequential run and are not part of
  the state.
\<close>

type_synonym uint = "32 word"

record klog_entry =
  seq :: uint
  timestamp_hi :: uint
  timestamp_lo :: uint
  cpu :: uint
  pid :: uint
  level :: uint
  msg :: string

definition KLOG_BUF_SIZE :: nat where
  "KLOG_BUF_SIZE = 256"

record klog_cpu_buf =
  entries :: "klog_entry list"
  head :: uint
  dropped :: uint

text \<open>
  \<^verbatim>\<open>cpu_logs[NCPU]\<close> and \<^verbatim>\<open>global_seq\<close>. \<^verbatim>\<open>NCPU\<close> comes from \<^verbatim>\<open>param.h\<close>; here it is
  the length of \<open>cpu_logs\<close>.
\<close>

record klog_state =
  cpu_logs :: "klog_cpu_buf list"
  global_seq :: uint

definition NCPU :: "klog_state \<Rightarrow> nat" where
  "NCPU st = length (cpu_logs st)"

text \<open>Every ring is the array \<^verbatim>\<open>entries[KLOG_BUF_SIZE]\<close>.\<close>

definition rings_ok :: "klog_state \<Rightarrow> bool" where
  "rings_ok st = list_all (\<lambda>log. length (entries log) = KLOG_BUF_SIZE) (cpu_logs st)"

text \<open>
  A C array access outside the array is undefined behaviour. The model makes it a value:
  an operation that indexes an array of \<open>n\<close> elements at \<open>k \<ge> n\<close> stops with
  \<open>OutOfBounds k\<close>.
\<close>

datatype fault = OutOfBounds nat

section \<open>klog\_snapshot\<close>

text \<open>
  The copy loop of one CPU:
  \<^verbatim>\<open>for(i = start; i < end && count < max_entries; i++){
     idx = i % KLOG_BUF_SIZE;  buf[count++] = log->entries[idx]; }\<close>
  \<^verbatim>\<open>i\<close>, \<^verbatim>\<open>end\<close> and \<^verbatim>\<open>idx\<close> are \<^verbatim>\<open>uint\<close>; \<^verbatim>\<open>count\<close> is an \<^verbatim>\<open>int\<close> that starts at 0
  and only grows, a \<open>nat\<close> here; \<^verbatim>\<open>max_entries\<close> is an \<^verbatim>\<open>int\<close>. The destination
  \<^verbatim>\<open>buf\<close> is the caller's array, a list as long as the array.
\<close>

function copy_loop ::
  "klog_cpu_buf \<Rightarrow> klog_entry list \<Rightarrow> nat \<Rightarrow> int \<Rightarrow> uint \<Rightarrow> uint
     \<Rightarrow> fault + (klog_entry list \<times> nat)" where
  "copy_loop log buf cnt max_entries i endp =
     (if i < endp \<and> int cnt < max_entries then
        if length buf \<le> cnt then Inl (OutOfBounds cnt)
        else copy_loop log (buf[cnt := entries log ! unat (i mod 256)])
               (cnt + 1) max_entries (i + 1) endp
      else Inr (buf, cnt))"
  by pat_completeness auto

termination copy_loop
proof (relation "measure (\<lambda>(log, buf, cnt, max_entries, i, endp). unat endp - unat i)")
  fix log :: klog_cpu_buf and buf :: "klog_entry list" and cnt :: nat
    and max_entries :: int and i endp :: uint
  assume a: "i < endp \<and> int cnt < max_entries"
  have "unat endp < 2 ^ 32" using unsigned_less [of endp] by simp
  with a have "unat i + unat (1::uint) < 2 ^ LENGTH(32)" by (simp add: word_less_nat_alt)
  then have "unat (i + 1) = unat i + unat (1::uint)" by (simp only: unat_add_lem)
  with a show "((log, buf[cnt := entries log ! unat (i mod 256)], cnt + 1, max_entries, i + 1, endp),
      log, buf, cnt, max_entries, i, endp)
    \<in> measure (\<lambda>(log, buf, cnt, max_entries, i, endp). unat endp - unat i)"
    by (auto simp add: word_less_nat_alt)
qed simp

declare copy_loop.simps [simp del]

text \<open>
  The range of one CPU:
  \<^verbatim>\<open>if(log->head > KLOG_BUF_SIZE){ start = log->head - KLOG_BUF_SIZE; end = log->head; }
   else { start = 0; end = log->head; }\<close>
\<close>

definition snapshot_range :: "klog_cpu_buf \<Rightarrow> uint \<times> uint" where
  "snapshot_range log =
     (if head log > 256 then (head log - 256, head log) else (0, head log))"

definition snapshot_cpu ::
  "klog_cpu_buf \<Rightarrow> klog_entry list \<Rightarrow> nat \<Rightarrow> int \<Rightarrow> fault + (klog_entry list \<times> nat)" where
  "snapshot_cpu log buf cnt max_entries =
     copy_loop log buf cnt max_entries (fst (snapshot_range log)) (snd (snapshot_range log))"

text \<open>\<^verbatim>\<open>for(cpu_id = 0; cpu_id < NCPU; cpu_id++){ log = &cpu_logs[cpu_id]; ... }\<close>\<close>

fun snapshot_cpus ::
  "klog_cpu_buf list \<Rightarrow> klog_entry list \<Rightarrow> nat \<Rightarrow> int \<Rightarrow> fault + (klog_entry list \<times> nat)" where
  "snapshot_cpus [] buf cnt max_entries = Inr (buf, cnt)"
| "snapshot_cpus (log # logs) buf cnt max_entries =
     (case snapshot_cpu log buf cnt max_entries of
        Inl f \<Rightarrow> Inl f
      | Inr (buf', cnt') \<Rightarrow> snapshot_cpus logs buf' cnt' max_entries)"

text \<open>
  The sort:
  \<^verbatim>\<open>for(i = 0; i < count - 1; i++)
     for(j = 0; j < count - i - 1; j++)
       if(buf[j].seq > buf[j+1].seq){ t = buf[j]; buf[j] = buf[j+1]; buf[j+1] = t; }\<close>
  \<^verbatim>\<open>i\<close> and \<^verbatim>\<open>j\<close> are \<^verbatim>\<open>uint\<close> and \<^verbatim>\<open>count\<close> is an \<^verbatim>\<open>int\<close>. In \<^verbatim>\<open>i < count - 1\<close> the
  right side is computed as an \<^verbatim>\<open>int\<close> and then converted to \<^verbatim>\<open>uint\<close> for the
  comparison; in \<^verbatim>\<open>j < count - i - 1\<close> \<^verbatim>\<open>count\<close> is converted first and both
  subtractions are unsigned. \<open>cmp_swap buf j (j+1)\<close> is the body of the inner loop; the
  loop reads \<^verbatim>\<open>buf[j]\<close> and \<^verbatim>\<open>buf[j+1]\<close> in every round.
\<close>

definition cmp_swap :: "klog_entry list \<Rightarrow> nat \<Rightarrow> nat \<Rightarrow> klog_entry list" where
  "cmp_swap buf a b =
     (if seq (buf ! a) > seq (buf ! b) then buf[a := buf ! b, b := buf ! a] else buf)"

function sort_inner :: "klog_entry list \<Rightarrow> nat \<Rightarrow> uint \<Rightarrow> uint \<Rightarrow> fault + klog_entry list" where
  "sort_inner buf cnt i j =
     (if j < of_nat cnt - i - 1 then
        if length buf \<le> unat j then Inl (OutOfBounds (unat j))
        else if length buf \<le> unat (j + 1) then Inl (OutOfBounds (unat (j + 1)))
        else sort_inner (cmp_swap buf (unat j) (unat (j + 1))) cnt i (j + 1)
      else Inr buf)"
  by pat_completeness auto

termination sort_inner
proof (relation "measure (\<lambda>(buf, cnt, i, j). unat (of_nat cnt - i - 1 :: uint) - unat j)")
  fix buf buf' :: "klog_entry list" and cnt :: nat and i j :: uint
  assume a: "j < of_nat cnt - i - 1"
  have "unat (of_nat cnt - i - 1 :: uint) < 2 ^ 32"
    using unsigned_less [of "of_nat cnt - i - 1 :: uint"] by simp
  with a have "unat j + unat (1::uint) < 2 ^ LENGTH(32)" by (simp add: word_less_nat_alt)
  then have "unat (j + 1) = unat j + unat (1::uint)" by (simp only: unat_add_lem)
  with a show "((buf', cnt, i, j + 1), buf, cnt, i, j)
    \<in> measure (\<lambda>(buf, cnt, i, j). unat (of_nat cnt - i - 1 :: uint) - unat j)"
    by (auto simp add: word_less_nat_alt)
qed simp

declare sort_inner.simps [simp del]

function sort_outer :: "klog_entry list \<Rightarrow> nat \<Rightarrow> uint \<Rightarrow> fault + klog_entry list" where
  "sort_outer buf cnt i =
     (if i < word_of_int (int cnt - 1) then
        case sort_inner buf cnt i 0 of
          Inl f \<Rightarrow> Inl f
        | Inr buf' \<Rightarrow> sort_outer buf' cnt (i + 1)
      else Inr buf)"
  by pat_completeness auto

termination sort_outer
proof (relation "measure (\<lambda>(buf, cnt, i). unat (word_of_int (int cnt - 1) :: uint) - unat i)")
  fix buf buf' :: "klog_entry list" and cnt :: nat and i :: uint
  assume a: "i < word_of_int (int cnt - 1)"
  have "unat (word_of_int (int cnt - 1) :: uint) < 2 ^ 32"
    using unsigned_less [of "word_of_int (int cnt - 1) :: uint"] by simp
  with a have "unat i + unat (1::uint) < 2 ^ LENGTH(32)" by (simp add: word_less_nat_alt)
  then have "unat (i + 1) = unat i + unat (1::uint)" by (simp only: unat_add_lem)
  with a show "((buf', cnt, i + 1), buf, cnt, i)
    \<in> measure (\<lambda>(buf, cnt, i). unat (word_of_int (int cnt - 1) :: uint) - unat i)"
    by (auto simp add: word_less_nat_alt)
qed simp

declare sort_outer.simps [simp del]

text \<open>
  \<^verbatim>\<open>klog_snapshot(buf, max_entries)\<close> returns \<^verbatim>\<open>count\<close> and leaves the records in
  \<^verbatim>\<open>buf\<close>. The model returns the state too: the function reads \<^verbatim>\<open>cpu_logs\<close> and has no
  store to it.
\<close>

definition klog_snapshot ::
  "klog_state \<Rightarrow> klog_entry list \<Rightarrow> int \<Rightarrow> fault + (klog_state \<times> klog_entry list \<times> nat)" where
  "klog_snapshot st buf max_entries =
     (case snapshot_cpus (cpu_logs st) buf 0 max_entries of
        Inl f \<Rightarrow> Inl f
      | Inr (buf1, cnt) \<Rightarrow>
          (case sort_outer buf1 cnt 0 of
             Inl f \<Rightarrow> Inl f
           | Inr buf2 \<Rightarrow> Inr (st, buf2, cnt)))"

text \<open>
  The same two phases read as functions on lists, for comparison with the loops. The
  valid entries of a ring are those at the cursor positions from \<open>max 0 (head - N)\<close> up
  to \<open>head\<close>, position \<open>p\<close> in slot \<open>p mod N\<close>; the collector takes them core by core,
  in ascending core order, until \<open>max_entries\<close> are taken; the sort makes \<open>n - 1\<close> passes
  over \<open>n\<close> records, pass \<open>i\<close> comparing the neighbours \<open>0, 1\<close> up to
  \<open>n - i - 2, n - i - 1\<close>.
\<close>

definition valid_entries :: "klog_cpu_buf \<Rightarrow> klog_entry list" where
  "valid_entries log =
     map (\<lambda>p. entries log ! (p mod 256)) [unat (head log) - 256 ..< unat (head log)]"

definition collected :: "klog_cpu_buf list \<Rightarrow> int \<Rightarrow> klog_entry list" where
  "collected logs max_entries = take (nat max_entries) (concat (map valid_entries logs))"

definition sort_pass :: "klog_entry list \<Rightarrow> nat \<Rightarrow> klog_entry list" where
  "sort_pass xs m = foldl (\<lambda>b k. cmp_swap b k (Suc k)) xs [0..<m]"

definition sort_passes :: "klog_entry list \<Rightarrow> klog_entry list" where
  "sort_passes xs = foldl (\<lambda>b i. sort_pass b (length xs - Suc i)) xs [0..<length xs - 1]"

section \<open>klog\_printf\<close>

text \<open>
  What a call of \<^verbatim>\<open>klog_printf_internal\<close> reads from its surroundings: \<^verbatim>\<open>cpuid()\<close>, the
  pid of \<^verbatim>\<open>myproc()\<close> (\<open>None\<close> when there is no process), the time stamp counter
  (\<^verbatim>\<open>rdtsc\<close>, high and low half), the C string stored at each address (for \<^verbatim>\<open>%s\<close>), and
  the bytes the stack holds where the local \<^verbatim>\<open>char buf[64]\<close> is placed.
\<close>

record kenv =
  env_cpuid :: int
  env_pid :: "int option"
  env_tsc_hi :: uint
  env_tsc_lo :: uint
  env_str :: "uint \<Rightarrow> string"
  env_stack :: "nat \<Rightarrow> char"

abbreviation NUL :: char where
  "NUL \<equiv> CHR 0x00"

text \<open>A store \<^verbatim>\<open>buf[k] = c\<close> into the staging array.\<close>

definition put :: "string \<Rightarrow> nat \<Rightarrow> char \<Rightarrow> fault + string" where
  "put buf k c = (if k < length buf then Inr (buf[k := c]) else Inl (OutOfBounds k))"

text \<open>
  \<^verbatim>\<open>while(val > 0 && i < sizeof(tmp)){ tmp[i++] = '0' + (val % 10); val /= 10; }\<close>
  with \<^verbatim>\<open>char tmp[16]\<close>; \<open>tmp\<close> is the list \<^verbatim>\<open>tmp[0..i-1]\<close>.
\<close>

function int_digits :: "int \<Rightarrow> string \<Rightarrow> string" where
  "int_digits val tmp =
     (if val > 0 \<and> length tmp < 16
      then int_digits (val div 10) (tmp @ [char_of (of_char CHR ''0'' + val mod 10)])
      else tmp)"
  by pat_completeness auto

termination int_digits
  by (relation "measure (\<lambda>(val, tmp). 16 - length tmp)") auto

declare int_digits.simps [simp del]

text \<open>
  \<^verbatim>\<open>while(val > 0 && i < sizeof(tmp)){ tmp[i++] = digits[val & 0xf]; val >>= 4; }\<close>
\<close>

function hex_digits :: "uint \<Rightarrow> string \<Rightarrow> string" where
  "hex_digits val tmp =
     (if val > 0 \<and> length tmp < 16
      then hex_digits (drop_bit 4 val) (tmp @ [''0123456789abcdef'' ! unat (val AND 0xf)])
      else tmp)"
  by pat_completeness auto

termination hex_digits
  by (relation "measure (\<lambda>(val, tmp). 16 - length tmp)") auto

declare hex_digits.simps [simp del]

text \<open>
  \<^verbatim>\<open>while(i > 0 && j < size-1) buf[j++] = tmp[--i];\<close>
  The helpers are called with \<^verbatim>\<open>buf + i\<close>: \<open>base\<close> is that offset into the staging array,
  \<open>bsize\<close> the \<^verbatim>\<open>size\<close> argument.
\<close>

function copy_tmp ::
  "string \<Rightarrow> nat \<Rightarrow> int \<Rightarrow> string \<Rightarrow> nat \<Rightarrow> nat \<Rightarrow> fault + (string \<times> nat)" where
  "copy_tmp buf base bsize tmp i j =
     (if i > 0 \<and> int j < bsize - 1 then
        case put buf (base + j) (tmp ! (i - 1)) of
          Inl f \<Rightarrow> Inl f
        | Inr buf' \<Rightarrow> copy_tmp buf' base bsize tmp (i - 1) (j + 1)
      else Inr (buf, j))"
  by pat_completeness auto

termination copy_tmp
  by (relation "measure (\<lambda>(buf, base, bsize, tmp, i, j). i)") auto

declare copy_tmp.simps [simp del]

text \<open>
  \<^verbatim>\<open>snprintf_int(buf, size, val)\<close>. The caller passes the \<^verbatim>\<open>uint\<close> \<^verbatim>\<open>*ap++\<close>, read as an
  \<^verbatim>\<open>int\<close>: \<open>sint\<close>. \<^verbatim>\<open>val = -val\<close> is the negation of a 32-bit \<^verbatim>\<open>int\<close>. For every
  argument but \<open>0x80000000\<close> (\<^verbatim>\<open>INT_MIN\<close>) it is the mathematical negation. For \<^verbatim>\<open>INT_MIN\<close>
  the negation overflows, which C leaves undefined: the model takes the two's complement
  wrap-around (\<^verbatim>\<open>INT_MIN\<close> again, no digit is produced), and the code a compiler emits for
  this one argument may print something else.
\<close>

definition snprintf_int :: "string \<Rightarrow> nat \<Rightarrow> int \<Rightarrow> uint \<Rightarrow> fault + (string \<times> nat)" where
  "snprintf_int buf base bsize w =
     (if bsize \<le> 0 then Inr (buf, 0)
      else
        let neg = (sint w < 0);
            val = sint (if neg then - w else w);
            tmp = (if val = 0 then [CHR ''0''] else int_digits val [])
        in case (if neg \<and> 0 < bsize - 1
                 then (case put buf base CHR ''-'' of Inl f \<Rightarrow> Inl f | Inr b \<Rightarrow> Inr (b, 1))
                 else Inr (buf, 0)) of
             Inl f \<Rightarrow> Inl f
           | Inr (buf1, j1) \<Rightarrow>
               (case copy_tmp buf1 base bsize tmp (length tmp) j1 of
                  Inl f \<Rightarrow> Inl f
                | Inr (buf2, j) \<Rightarrow>
                    (case put buf2 (base + j) NUL of
                       Inl f \<Rightarrow> Inl f
                     | Inr buf3 \<Rightarrow> Inr (buf3, j))))"

text \<open>\<^verbatim>\<open>snprintf_hex(buf, size, val)\<close>: nothing at all is written when \<^verbatim>\<open>size <= 2\<close>.\<close>

definition snprintf_hex :: "string \<Rightarrow> nat \<Rightarrow> int \<Rightarrow> uint \<Rightarrow> fault + (string \<times> nat)" where
  "snprintf_hex buf base bsize val =
     (if bsize \<le> 2 then Inr (buf, 0)
      else
        case put buf base CHR ''0'' of
          Inl f \<Rightarrow> Inl f
        | Inr buf1 \<Rightarrow>
            (case put buf1 (base + 1) CHR ''x'' of
               Inl f \<Rightarrow> Inl f
             | Inr buf2 \<Rightarrow>
                 (let tmp = (if val = 0 then [CHR ''0''] else hex_digits val [])
                  in case copy_tmp buf2 base bsize tmp (length tmp) 2 of
                       Inl f \<Rightarrow> Inl f
                     | Inr (buf3, j) \<Rightarrow>
                         (case put buf3 (base + j) NUL of
                            Inl f \<Rightarrow> Inl f
                          | Inr buf4 \<Rightarrow> Inr (buf4, j)))))"

text \<open>\<^verbatim>\<open>for(; *s && i < sizeof(buf)-1; s++) buf[i++] = *s;\<close>\<close>

fun copy_str :: "string \<Rightarrow> nat \<Rightarrow> string \<Rightarrow> fault + (string \<times> nat)" where
  "copy_str buf i [] = Inr (buf, i)"
| "copy_str buf i (c # s) =
     (if c \<noteq> NUL \<and> i < 63 then
        case put buf i c of
          Inl f \<Rightarrow> Inl f
        | Inr buf' \<Rightarrow> copy_str buf' (i + 1) s
      else Inr (buf, i))"

text \<open>
  The \<^verbatim>\<open>switch(*fmt)\<close> after a \<^verbatim>\<open>%\<close>. \<open>ap\<close> is the argument area on the stack and \<open>k\<close>
  the number of words consumed (\<^verbatim>\<open>*ap++\<close>); the result is the staging array, the new
  \<^verbatim>\<open>i\<close> and the new \<open>k\<close>. The helpers get \<^verbatim>\<open>sizeof(buf) - i\<close> as their size; \<^verbatim>\<open>i\<close> is
  at most 62 here.
\<close>

definition directive ::
  "(uint \<Rightarrow> string) \<Rightarrow> char \<Rightarrow> (nat \<Rightarrow> uint) \<Rightarrow> nat \<Rightarrow> string \<Rightarrow> nat
     \<Rightarrow> fault + (string \<times> nat \<times> nat)" where
  "directive mem d ap k buf i =
     (if d = CHR ''d'' then
        (case snprintf_int buf i (64 - int i) (ap k) of
           Inl f \<Rightarrow> Inl f
         | Inr (buf', j) \<Rightarrow> Inr (buf', i + j, k + 1))
      else if d = CHR ''x'' then
        (case snprintf_hex buf i (64 - int i) (ap k) of
           Inl f \<Rightarrow> Inl f
         | Inr (buf', j) \<Rightarrow> Inr (buf', i + j, k + 1))
      else if d = CHR ''s'' then
        (case copy_str buf i (if ap k = 0 then ''(null)'' else mem (ap k)) of
           Inl f \<Rightarrow> Inl f
         | Inr (buf', i') \<Rightarrow> Inr (buf', i', k + 1))
      else if d = CHR ''%'' then
        (case put buf i CHR ''%'' of
           Inl f \<Rightarrow> Inl f
         | Inr buf' \<Rightarrow> Inr (buf', i + 1, k))
      else
        (case put buf i CHR ''%'' of
           Inl f \<Rightarrow> Inl f
         | Inr buf' \<Rightarrow>
             (case put buf' (i + 1) d of
                Inl f \<Rightarrow> Inl f
              | Inr buf'' \<Rightarrow> Inr (buf'', i + 2, k))))"

text \<open>
  \<^verbatim>\<open>for(; *fmt && i < sizeof(buf)-1; fmt++){ if(*fmt != '%'){ buf[i++] = *fmt; continue; }
     fmt++; if(*fmt == 0) break; switch(*fmt){ ... } }\<close>
  \<open>fmt\<close> is the format string up to its terminator: the end of the list reads as NUL.
\<close>

fun format_loop ::
  "(uint \<Rightarrow> string) \<Rightarrow> string \<Rightarrow> (nat \<Rightarrow> uint) \<Rightarrow> nat \<Rightarrow> string \<Rightarrow> nat
     \<Rightarrow> fault + (string \<times> nat)" where
  "format_loop mem [] ap k buf i = Inr (buf, i)"
| "format_loop mem [c] ap k buf i =
     (if c = NUL \<or> \<not> i < 63 then Inr (buf, i)
      else if c \<noteq> CHR ''%'' then
        (case put buf i c of Inl f \<Rightarrow> Inl f | Inr buf' \<Rightarrow> Inr (buf', i + 1))
      else Inr (buf, i))"
| "format_loop mem (c # d # fmt) ap k buf i =
     (if c = NUL \<or> \<not> i < 63 then Inr (buf, i)
      else if c \<noteq> CHR ''%'' then
        (case put buf i c of
           Inl f \<Rightarrow> Inl f
         | Inr buf' \<Rightarrow> format_loop mem (d # fmt) ap k buf' (i + 1))
      else if d = NUL then Inr (buf, i)
      else
        (case directive mem d ap k buf i of
           Inl f \<Rightarrow> Inl f
         | Inr (buf', i', k') \<Rightarrow> format_loop mem fmt ap k' buf' i'))"

text \<open>The formatting step as a whole, ending with \<^verbatim>\<open>buf[i] = 0\<close>.\<close>

definition format_msg :: "kenv \<Rightarrow> string \<Rightarrow> (nat \<Rightarrow> uint) \<Rightarrow> fault + string" where
  "format_msg env fmt ap =
     (case format_loop (env_str env) fmt ap 0 (map (env_stack env) [0..<64]) 0 of
        Inl f \<Rightarrow> Inl f
      | Inr (buf, i) \<Rightarrow> put buf i NUL)"

text \<open>
  \<^verbatim>\<open>for(i = 0; i < sizeof(entry->msg)-1 && buf[i]; i++) entry->msg[i] = buf[i];
   entry->msg[i] = 0;\<close>
\<close>

function copy_msg :: "string \<Rightarrow> string \<Rightarrow> nat \<Rightarrow> string" where
  "copy_msg buf m i =
     (if i < 63 \<and> buf ! i \<noteq> NUL then copy_msg buf (m[i := buf ! i]) (i + 1)
      else m[i := NUL])"
  by pat_completeness auto

termination copy_msg
  by (relation "measure (\<lambda>(buf, m, i). 63 - i)") auto

declare copy_msg.simps [simp del]

text \<open>\<^verbatim>\<open>seq = global_seq++\<close>, under \<^verbatim>\<open>seq_lock\<close>.\<close>

definition next_seq :: "klog_state \<Rightarrow> uint \<times> klog_state" where
  "next_seq st = (global_seq st, st\<lparr>global_seq := global_seq st + 1\<rparr>)"

text \<open>
  The second half of \<^verbatim>\<open>klog_printf_internal\<close>, "Add entry to log buffer", under the
  ring's lock:
  \<^verbatim>\<open>idx = log->head % KLOG_BUF_SIZE;  entry = &log->entries[idx];
   entry->seq = next_seq();  get_timestamp(&entry->timestamp_hi, &entry->timestamp_lo);
   entry->cpu = cpu_id;  entry->pid = pid;  entry->level = level;
   (copy of the message)  log->head++;\<close>
  \<open>fill_entry\<close> is the stores into the entry, \<open>append_log\<close> the update of one ring,
  \<open>klog_append\<close> the update of the state.
\<close>

definition fill_entry :: "kenv \<Rightarrow> uint \<Rightarrow> int \<Rightarrow> string \<Rightarrow> klog_entry \<Rightarrow> klog_entry" where
  "fill_entry env s lvl buf entry =
     entry\<lparr>seq := s,
           timestamp_hi := env_tsc_hi env,
           timestamp_lo := env_tsc_lo env,
           cpu := word_of_int (env_cpuid env),
           pid := word_of_int (case env_pid env of None \<Rightarrow> 0 | Some p \<Rightarrow> p),
           level := word_of_int lvl,
           msg := copy_msg buf (msg entry) 0\<rparr>"

definition append_log :: "kenv \<Rightarrow> uint \<Rightarrow> int \<Rightarrow> string \<Rightarrow> klog_cpu_buf \<Rightarrow> klog_cpu_buf" where
  "append_log env s lvl buf log =
     (let idx = unat (head log mod 256)
      in log\<lparr>entries := (entries log)[idx := fill_entry env s lvl buf (entries log ! idx)],
             head := head log + 1\<rparr>)"

definition klog_append :: "kenv \<Rightarrow> klog_state \<Rightarrow> int \<Rightarrow> string \<Rightarrow> klog_state" where
  "klog_append env st lvl buf =
     (let cpu_id = nat (env_cpuid env);
          (s, st1) = next_seq st
      in st1\<lparr>cpu_logs :=
               (cpu_logs st1)[cpu_id := append_log env s lvl buf (cpu_logs st1 ! cpu_id)]\<rparr>)"

text \<open>
  \<^verbatim>\<open>klog_printf_internal(level, fmt, ap)\<close>: the CPU id is checked, the message is
  formatted, the entry is appended.
  \<^verbatim>\<open>cpu_id = cpuid();  if(cpu_id < 0 || cpu_id >= NCPU){ popcli(); return; }\<close>
\<close>

definition klog_printf_internal ::
  "kenv \<Rightarrow> klog_state \<Rightarrow> int \<Rightarrow> string \<Rightarrow> (nat \<Rightarrow> uint) \<Rightarrow> fault + klog_state" where
  "klog_printf_internal env st lvl fmt ap =
     (if env_cpuid env < 0 \<or> env_cpuid env \<ge> int (NCPU st) then Inr st
      else
        case format_msg env fmt ap of
          Inl f \<Rightarrow> Inl f
        | Inr buf \<Rightarrow> Inr (klog_append env st lvl buf))"

definition KLOG_INFO :: int where
  "KLOG_INFO = 1"

definition klog_printf :: "kenv \<Rightarrow> klog_state \<Rightarrow> string \<Rightarrow> (nat \<Rightarrow> uint) \<Rightarrow> fault + klog_state" where
  "klog_printf env st fmt ap = klog_printf_internal env st KLOG_INFO fmt ap"

definition klog_printf_level ::
  "kenv \<Rightarrow> klog_state \<Rightarrow> int \<Rightarrow> string \<Rightarrow> (nat \<Rightarrow> uint) \<Rightarrow> fault + klog_state" where
  "klog_printf_level env st lvl fmt ap = klog_printf_internal env st lvl fmt ap"

section \<open>klog\_init, klog\_clear, klog\_get\_dropped\<close>

text \<open>
  \<^verbatim>\<open>for(i = 0; i < NCPU; i++){ cpu_logs[i].head = 0; cpu_logs[i].dropped = 0; }
   klog_printf("klog: logging subsystem initialized");\<close>
\<close>

definition klog_init :: "kenv \<Rightarrow> klog_state \<Rightarrow> (nat \<Rightarrow> uint) \<Rightarrow> fault + klog_state" where
  "klog_init env st ap =
     klog_printf env
       (st\<lparr>cpu_logs := map (\<lambda>log. log\<lparr>head := 0, dropped := 0\<rparr>) (cpu_logs st)\<rparr>)
       ''klog: logging subsystem initialized'' ap"

definition klog_clear :: "klog_state \<Rightarrow> klog_state" where
  "klog_clear st =
     st\<lparr>cpu_logs := map (\<lambda>log. log\<lparr>head := 0, dropped := 0\<rparr>) (cpu_logs st)\<rparr>"

text \<open>\<^verbatim>\<open>for(cpu_id = 0; cpu_id < NCPU; cpu_id++) total += log->dropped;\<close>\<close>

definition klog_get_dropped :: "klog_state \<Rightarrow> uint" where
  "klog_get_dropped st = foldl (\<lambda>total log. total + dropped log) 0 (cpu_logs st)"

text \<open>
  Static storage is zero-initialised: \<^verbatim>\<open>static struct klog_cpu_buf cpu_logs[NCPU]\<close> and
  \<^verbatim>\<open>static uint global_seq = 0\<close>. This is the state before \<^verbatim>\<open>klog_init\<close>.
\<close>

definition zero_entry :: klog_entry where
  "zero_entry = \<lparr>seq = 0, timestamp_hi = 0, timestamp_lo = 0, cpu = 0, pid = 0, level = 0,
                  msg = replicate 64 NUL\<rparr>"

definition zero_log :: klog_cpu_buf where
  "zero_log = \<lparr>entries = replicate 256 zero_entry, head = 0, dropped = 0\<rparr>"

definition boot_state :: "nat \<Rightarrow> klog_state" where
  "boot_state ncpu = \<lparr>cpu_logs = replicate ncpu zero_log, global_seq = 0\<rparr>"

section \<open>Runs of operations\<close>

text \<open>
  A record request is one call \<^verbatim>\<open>klog_printf_level(level, fmt, ...)\<close> with what it finds
  in its surroundings. The record a call produced is the entry it left in the slot
  \<^verbatim>\<open>head % KLOG_BUF_SIZE\<close> of its CPU's ring; a call with a CPU id out of range produces
  none.
\<close>

type_synonym request = "kenv \<times> int \<times> string \<times> (nat \<Rightarrow> uint)"

definition written :: "kenv \<Rightarrow> klog_state \<Rightarrow> klog_state \<Rightarrow> klog_entry list" where
  "written env st st' =
     (if env_cpuid env < 0 \<or> env_cpuid env \<ge> int (NCPU st) then []
      else [entries (cpu_logs st' ! nat (env_cpuid env))
              ! unat (head (cpu_logs st ! nat (env_cpuid env)) mod 256)])"

fun klog_run :: "klog_state \<Rightarrow> request list \<Rightarrow> fault + (klog_state \<times> klog_entry list)" where
  "klog_run st [] = Inr (st, [])"
| "klog_run st ((env, lvl, fmt, ap) # rs) =
     (case klog_printf_level env st lvl fmt ap of
        Inl f \<Rightarrow> Inl f
      | Inr st1 \<Rightarrow>
          (case klog_run st1 rs of
             Inl f \<Rightarrow> Inl f
           | Inr (st2, es) \<Rightarrow> Inr (st2, written env st st1 @ es)))"

text \<open>The operations of the subsystem that touch \<^verbatim>\<open>cpu_logs\<close>, as a state machine.\<close>

datatype klog_op =
  Record kenv int string "nat \<Rightarrow> uint"
| Snapshot "klog_entry list" int
| Clear

fun klog_step :: "klog_state \<Rightarrow> klog_op \<Rightarrow> fault + klog_state" where
  "klog_step st (Record env lvl fmt ap) = klog_printf_level env st lvl fmt ap"
| "klog_step st (Snapshot buf max_entries) =
     (case klog_snapshot st buf max_entries of
        Inl f \<Rightarrow> Inl f
      | Inr (st', buf', cnt) \<Rightarrow> Inr st')"
| "klog_step st Clear = Inr (klog_clear st)"

fun klog_steps :: "klog_state \<Rightarrow> klog_op list \<Rightarrow> fault + klog_state" where
  "klog_steps st [] = Inr st"
| "klog_steps st (op # ops) =
     (case klog_step st op of
        Inl f \<Rightarrow> Inl f
      | Inr st' \<Rightarrow> klog_steps st' ops)"

section \<open>The record layout and the two boundaries\<close>

text \<open>
  \<^verbatim>\<open>struct klog_entry\<close> in memory, as \<^verbatim>\<open>copyout\<close> transfers it: the six \<^verbatim>\<open>uint\<close> fields
  in declaration order, four bytes each, least significant byte first (x86), then the 64
  bytes of \<^verbatim>\<open>msg\<close>. All fields are 4-byte aligned, so there is no padding.
\<close>

type_synonym byte = "8 word"

definition le32 :: "uint \<Rightarrow> byte list" where
  "le32 w = [ucast w, ucast (drop_bit 8 w), ucast (drop_bit 16 w), ucast (drop_bit 24 w)]"

definition klog_entry_bytes :: "klog_entry \<Rightarrow> byte list" where
  "klog_entry_bytes e =
     le32 (seq e) @ le32 (timestamp_hi e) @ le32 (timestamp_lo e) @
     le32 (cpu e) @ le32 (pid e) @ le32 (level e) @
     map (\<lambda>k. of_char (msg e ! k)) [0..<64]"

text \<open>\<^verbatim>\<open>sizeof(struct klog_entry)\<close>: six \<^verbatim>\<open>uint\<close> and \<^verbatim>\<open>char msg[64]\<close>.\<close>

definition sizeof_klog_entry :: nat where
  "sizeof_klog_entry = 6 * 4 + 64"

text \<open>
  What reaches user memory: each successful \<^verbatim>\<open>copyout(pgdir, va, p, len)\<close> is a transfer
  of the bytes at the user address \<open>va\<close>. \<^verbatim>\<open>copyout\<close> itself (\<^verbatim>\<open>vm.c\<close>) is a parameter:
  \<open>ok va\<close> tells whether the copy to \<open>va\<close> succeeds.
\<close>

type_synonym transfers = "(uint \<times> byte list) list"

text \<open>
  \<^verbatim>\<open>for(i = 0; i < count; i++){
     if(copyout(curproc->pgdir, (uint)buf_addr + i * sizeof(struct klog_entry),
                &kbuf[i], sizeof(struct klog_entry)) < 0){ kfree(kbuf); return -1; } }
   kfree(kbuf); return count;\<close>
\<close>

function getklog_copy ::
  "(uint \<Rightarrow> bool) \<Rightarrow> klog_entry list \<Rightarrow> int \<Rightarrow> nat \<Rightarrow> nat \<Rightarrow> transfers \<Rightarrow> int \<times> transfers" where
  "getklog_copy ok kbuf buf_addr cnt i out =
     (if i < cnt then
        let va = (word_of_int buf_addr + of_nat i * of_nat sizeof_klog_entry :: uint) in
        if \<not> ok va then (- 1, out)
        else getklog_copy ok kbuf buf_addr cnt (i + 1) (out @ [(va, klog_entry_bytes (kbuf ! i))])
      else (int cnt, out))"
  by pat_completeness auto

termination getklog_copy
  by (relation "measure (\<lambda>(ok, kbuf, buf_addr, cnt, i, out). cnt - i)") auto

declare getklog_copy.simps [simp del]

text \<open>
  \<^verbatim>\<open>sys_getklog\<close>. \<open>arg0\<close> and \<open>arg1\<close> are the results of \<^verbatim>\<open>argint(0, &buf_addr)\<close> and
  \<^verbatim>\<open>argint(1, &max_entries)\<close> (\<open>None\<close> when the fetch fails), \<open>sz\<close> is \<^verbatim>\<open>curproc->sz\<close>,
  \<open>kalloc\<close> the result of \<^verbatim>\<open>kalloc()\<close>: \<open>None\<close> for 0, otherwise the page seen as an array
  of \<^verbatim>\<open>struct klog_entry\<close>. \<^verbatim>\<open>PGSIZE\<close> (\<^verbatim>\<open>mmu.h\<close>) is a parameter. The result is the return
  value and the transfers made. In the two range checks the operands are compared as
  \<^verbatim>\<open>uint\<close>, as C does when an \<^verbatim>\<open>int\<close> meets a \<^verbatim>\<open>uint\<close>.
\<close>

definition sys_getklog ::
  "nat \<Rightarrow> klog_state \<Rightarrow> int option \<Rightarrow> int option \<Rightarrow> uint \<Rightarrow> klog_entry list option
     \<Rightarrow> (uint \<Rightarrow> bool) \<Rightarrow> fault + (int \<times> transfers)" where
  "sys_getklog PGSIZE st arg0 arg1 sz kalloc ok =
     (case arg0 of
        None \<Rightarrow> Inr (- 1, [])
      | Some buf_addr \<Rightarrow>
     (case arg1 of
        None \<Rightarrow> Inr (- 1, [])
      | Some max_entries \<Rightarrow>
     if max_entries \<le> 0 \<or> max_entries > 1024 then Inr (- 1, [])
     else if buf_addr < 0 \<or> (word_of_int buf_addr :: uint) \<ge> sz then Inr (- 1, [])
     else if (word_of_int buf_addr + word_of_int max_entries * of_nat sizeof_klog_entry :: uint) > sz
       then Inr (- 1, [])
     else
       (case kalloc of
          None \<Rightarrow> Inr (- 1, [])
        | Some kbuf \<Rightarrow>
            (let max_fit = int (PGSIZE div sizeof_klog_entry);
                 max_entries' = (if max_entries > max_fit then max_fit else max_entries)
             in case klog_snapshot st kbuf max_entries' of
                  Inl f \<Rightarrow> Inl f
                | Inr (st', kbuf', cnt) \<Rightarrow> Inr (getklog_copy ok kbuf' buf_addr cnt 0 [])))))"

text \<open>
  \<^verbatim>\<open>klogdev_read(ip, dst, n)\<close>:
  \<^verbatim>\<open>count = klog_snapshot(entries, 64);
   for(i = 0; i < count && copied + sizeof(struct klog_entry) <= n; i++){
     if(copyout(myproc()->pgdir, (uint)dst + copied, &entries[i], sizeof(struct klog_entry)) < 0)
       return -1;
     copied += sizeof(struct klog_entry); }
   return copied;\<close>
  \<^verbatim>\<open>copied + sizeof(...) <= n\<close> is an unsigned comparison. \<open>ents\<close> is the local array
  \<^verbatim>\<open>struct klog_entry entries[64]\<close> with whatever the stack holds.
\<close>

function klogdev_copy ::
  "(uint \<Rightarrow> bool) \<Rightarrow> klog_entry list \<Rightarrow> nat \<Rightarrow> uint \<Rightarrow> int \<Rightarrow> nat \<Rightarrow> int \<Rightarrow> transfers
     \<Rightarrow> int \<times> transfers" where
  "klogdev_copy ok ents cnt dst n i copied out =
     (if i < cnt \<and> (word_of_int copied + of_nat sizeof_klog_entry :: uint) \<le> word_of_int n then
        if \<not> ok (dst + word_of_int copied) then (- 1, out)
        else klogdev_copy ok ents cnt dst n (i + 1) (copied + int sizeof_klog_entry)
               (out @ [(dst + word_of_int copied, klog_entry_bytes (ents ! i))])
      else (copied, out))"
  by pat_completeness auto

termination klogdev_copy
  by (relation "measure (\<lambda>(ok, ents, cnt, dst, n, i, copied, out). cnt - i)") auto

declare klogdev_copy.simps [simp del]

definition klogdev_read ::
  "klog_state \<Rightarrow> klog_entry list \<Rightarrow> uint \<Rightarrow> int \<Rightarrow> (uint \<Rightarrow> bool) \<Rightarrow> fault + (int \<times> transfers)" where
  "klogdev_read st ents dst n ok =
     (case klog_snapshot st ents 64 of
        Inl f \<Rightarrow> Inl f
      | Inr (st', ents', cnt) \<Rightarrow> Inr (klogdev_copy ok ents' cnt dst n 0 0 []))"

section \<open>The rendered text\<close>

text \<open>
  The text a format string stands for when room is unlimited, following the substitution
  grammar of the logger: \<^verbatim>\<open>%d\<close> a signed decimal, \<^verbatim>\<open>%x\<close> hexadecimal with the prefix
  \<^verbatim>\<open>0x\<close>, \<^verbatim>\<open>%s\<close> a string (\<^verbatim>\<open>(null)\<close> for a null pointer), \<^verbatim>\<open>%%\<close> a percent sign, any
  other directive copied through, a trailing \<^verbatim>\<open>%\<close> dropped. The stored message is
  compared with this text.
\<close>

definition int_text :: "uint \<Rightarrow> string" where
  "int_text w =
     (let neg = (sint w < 0); val = sint (if neg then - w else w)
      in (if neg then ''-'' else []) @ rev (if val = 0 then ''0'' else int_digits val []))"

definition hex_text :: "uint \<Rightarrow> string" where
  "hex_text val = ''0x'' @ rev (if val = 0 then ''0'' else hex_digits val [])"

fun render_spec :: "(uint \<Rightarrow> string) \<Rightarrow> string \<Rightarrow> (nat \<Rightarrow> uint) \<Rightarrow> nat \<Rightarrow> string" where
  "render_spec mem [] ap k = []"
| "render_spec mem [c] ap k = (if c = NUL \<or> c = CHR ''%'' then [] else [c])"
| "render_spec mem (c # d # fmt) ap k =
     (if c = NUL then []
      else if c \<noteq> CHR ''%'' then c # render_spec mem (d # fmt) ap k
      else if d = NUL then []
      else if d = CHR ''d'' then int_text (ap k) @ render_spec mem fmt ap (k + 1)
      else if d = CHR ''x'' then hex_text (ap k) @ render_spec mem fmt ap (k + 1)
      else if d = CHR ''s'' then
        takeWhile (\<lambda>c. c \<noteq> NUL) (if ap k = 0 then ''(null)'' else mem (ap k))
          @ render_spec mem fmt ap (k + 1)
      else if d = CHR ''%'' then CHR ''%'' # render_spec mem fmt ap k
      else CHR ''%'' # d # render_spec mem fmt ap k)"

section \<open>Example states\<close>

text \<open>
  One ring of capacity 256 after 300 appends that carried the sequence numbers 0 to 299:
  the cursor is 300, slot \<open>s\<close> holds the record of position \<open>256 + s\<close> for \<open>s < 44\<close>
  and of position \<open>s\<close> otherwise.
\<close>

definition wrap_entry :: "nat \<Rightarrow> klog_entry" where
  "wrap_entry p = zero_entry\<lparr>seq := of_nat p\<rparr>"

definition wrap_log :: klog_cpu_buf where
  "wrap_log = \<lparr>entries = map (\<lambda>s. wrap_entry (if s < 44 then 256 + s else s)) [0..<256],
               head = 300, dropped = 0\<rparr>"

definition wrap_state :: klog_state where
  "wrap_state = \<lparr>cpu_logs = [wrap_log], global_seq = 300\<rparr>"

text \<open>
  Two cores with ten records each and nothing overwritten: core \<open>c\<close> holds the sequence
  numbers \<open>c, c + 2, ..., c + 18\<close>.
\<close>

definition pair_log :: "nat \<Rightarrow> klog_cpu_buf" where
  "pair_log c = \<lparr>entries = map (\<lambda>s. if s < 10 then wrap_entry (2 * s + c) else zero_entry) [0..<256],
                  head = 10, dropped = 0\<rparr>"

definition pair_state :: klog_state where
  "pair_state = \<lparr>cpu_logs = [pair_log 0, pair_log 1], global_seq = 20\<rparr>"

text \<open>Two callers: on CPU 0 for process 1, and on CPU 1 outside any process.\<close>

definition env0 :: kenv where
  "env0 = \<lparr>env_cpuid = 0, env_pid = Some 1, env_tsc_hi = 0, env_tsc_lo = 7,
            env_str = (\<lambda>_. []), env_stack = (\<lambda>_. CHR ''?'')\<rparr>"

definition env1 :: kenv where
  "env1 = \<lparr>env_cpuid = 1, env_pid = None, env_tsc_hi = 0, env_tsc_lo = 9,
            env_str = (\<lambda>_. ''tty''), env_stack = (\<lambda>_. CHR ''#'')\<rparr>"

text \<open>Three records in an array, as a snapshot leaves them.\<close>

definition layout_fx :: "klog_entry list" where
  "layout_fx = [wrap_entry 5, wrap_entry 6, wrap_entry 7]"

section \<open>Properties\<close>

subsection \<open>Machine integers\<close>

lemma unat_succ: "(j::uint) < b \<Longrightarrow> unat (j + 1) = Suc (unat j)"
proof -
  assume a: "j < b"
  have "unat b < 2 ^ 32" using unsigned_less [of b] by simp
  with a have "unat j + unat (1::uint) < 2 ^ LENGTH(32)" by (simp add: word_less_nat_alt)
  then have "unat (j + 1) = unat j + unat (1::uint)" by (simp only: unat_add_lem)
  then show ?thesis by simp
qed

lemma unat_inner_bound:
  assumes "Suc (unat i) < n" "n < 2 ^ 32"
  shows "unat (of_nat n - i - 1 :: uint) = n - Suc (unat i)"
proof -
  have c: "unat (of_nat n :: uint) = n" using assms by (simp add: unat_of_nat)
  have "i \<le> of_nat n" using assms c by (simp add: word_le_nat_alt)
  then have d: "unat (of_nat n - i) = n - unat i" using c by (simp add: unat_sub)
  have "of_nat n - i \<noteq> 0" using d assms by (metis Suc_lessD unat_0 zero_less_diff less_irrefl)
  then show ?thesis using d by (simp add: unat_minus_one)
qed

lemma unat_outer_bound:
  assumes "0 < n" "n < 2 ^ 32"
  shows "unat (word_of_int (int n - 1) :: uint) = n - 1"
proof -
  have c: "unat (of_nat n :: uint) = n" using assms by (simp add: unat_of_nat)
  then have nz: "(of_nat n :: uint) \<noteq> 0" using assms by auto
  have e: "(word_of_int (int n - 1) :: uint) = of_nat n - 1" by simp
  have "unat (of_nat n - 1 :: uint) = unat (of_nat n :: uint) - 1"
    using nz by (rule unat_minus_one)
  then show ?thesis unfolding e c .
qed

subsection \<open>The sort loops are the passes over the list\<close>

lemma length_cmp_swap [simp]: "length (cmp_swap buf a b) = length buf"
  by (simp add: cmp_swap_def)

lemma sort_inner_fold:
  assumes "Suc (unat i) < n" "n < 2 ^ 32" "n \<le> length buf"
  shows "sort_inner buf n i j =
           Inr (foldl (\<lambda>b k. cmp_swap b k (Suc k)) buf [unat j ..< n - Suc (unat i)])"
  using assms(3)
proof (induction "n - Suc (unat i) - unat j" arbitrary: buf j)
  case 0
  have b: "unat (of_nat n - i - 1 :: uint) = n - Suc (unat i)"
    using assms(1,2) by (rule unat_inner_bound)
  have "\<not> j < of_nat n - i - 1"
    using 0(1) unfolding word_less_nat_alt b by linarith
  moreover have "[unat j ..< n - Suc (unat i)] = []" using 0 by simp
  ultimately show ?case by (subst sort_inner.simps) (simp only: if_False foldl_Nil)
next
  case (Suc d)
  then have lt: "unat j < n - Suc (unat i)" by simp
  have b: "unat (of_nat n - i - 1 :: uint) = n - Suc (unat i)"
    using assms(1,2) by (rule unat_inner_bound)
  have lt': "j < of_nat n - i - 1"
    using lt unfolding word_less_nat_alt b .
  have s: "unat (j + 1) = Suc (unat j)" using lt' by (rule unat_succ)
  have "d = n - Suc (unat i) - unat (j + 1)" using Suc(2) s by simp
  moreover have "n \<le> length (cmp_swap buf (unat j) (unat (j + 1)))" using Suc(3) by simp
  ultimately have IH: "sort_inner (cmp_swap buf (unat j) (unat (j + 1))) n i (j + 1) =
     Inr (foldl (\<lambda>b k. cmp_swap b k (Suc k)) (cmp_swap buf (unat j) (unat (j + 1)))
            [unat (j + 1) ..< n - Suc (unat i)])"
    by (rule Suc(1))
  have u: "[unat j ..< n - Suc (unat i)] = unat j # [Suc (unat j) ..< n - Suc (unat i)]"
    using lt by (simp add: upt_rec)
  have "\<not> length buf \<le> unat j" "\<not> length buf \<le> unat (j + 1)"
    using lt Suc(3) s by simp_all
  then have "sort_inner buf n i j = sort_inner (cmp_swap buf (unat j) (unat (j + 1))) n i (j + 1)"
    using lt' by (subst sort_inner.simps) (simp only: if_True if_False)
  also note IH
  also have "foldl (\<lambda>b k. cmp_swap b k (Suc k)) (cmp_swap buf (unat j) (unat (j + 1)))
      [unat (j + 1) ..< n - Suc (unat i)]
    = foldl (\<lambda>b k. cmp_swap b k (Suc k)) buf [unat j ..< n - Suc (unat i)]"
    unfolding u s by simp
  finally show ?case .
qed

lemma sort_inner_pass:
  assumes "Suc (unat i) < n" "n < 2 ^ 32" "n \<le> length buf"
  shows "sort_inner buf n i 0 = Inr (sort_pass buf (n - Suc (unat i)))"
  using sort_inner_fold [OF assms, of 0] by (simp add: sort_pass_def)

lemma length_sort_pass [simp]: "length (sort_pass buf m) = length buf"
  unfolding sort_pass_def by (induction m) simp_all

lemma sort_outer_fold:
  assumes "0 < n" "n < 2 ^ 32" "n \<le> length buf"
  shows "sort_outer buf n i =
           Inr (foldl (\<lambda>b i. sort_pass b (n - Suc i)) buf [unat i ..< n - 1])"
  using assms(3)
proof (induction "n - 1 - unat i" arbitrary: buf i)
  case 0
  have b: "unat (word_of_int (int n - 1) :: uint) = n - 1"
    using assms(1,2) by (rule unat_outer_bound)
  have "\<not> i < word_of_int (int n - 1)"
    using 0(1) unfolding word_less_nat_alt b by linarith
  moreover have "[unat i ..< n - 1] = []" using 0 by simp
  ultimately show ?case by (subst sort_outer.simps) (simp only: if_False foldl_Nil)
next
  case (Suc d)
  then have lt: "unat i < n - 1" by simp
  have b: "unat (word_of_int (int n - 1) :: uint) = n - 1"
    using assms(1,2) by (rule unat_outer_bound)
  have lt': "i < word_of_int (int n - 1)"
    using lt unfolding word_less_nat_alt b .
  have s: "unat (i + 1) = Suc (unat i)" using lt' by (rule unat_succ)
  have p: "sort_inner buf n i 0 = Inr (sort_pass buf (n - Suc (unat i)))"
    using lt assms(2) Suc(3) by (intro sort_inner_pass) simp_all
  have "d = n - 1 - unat (i + 1)" using Suc(2) s by simp
  moreover have "n \<le> length (sort_pass buf (n - Suc (unat i)))" using Suc(3) by simp
  ultimately have IH: "sort_outer (sort_pass buf (n - Suc (unat i))) n (i + 1) =
     Inr (foldl (\<lambda>b i. sort_pass b (n - Suc i)) (sort_pass buf (n - Suc (unat i)))
            [unat (i + 1) ..< n - 1])"
    by (rule Suc(1))
  have u: "[unat i ..< n - 1] = unat i # [Suc (unat i) ..< n - 1]"
    using lt by (simp add: upt_rec)
  have "sort_outer buf n i = sort_outer (sort_pass buf (n - Suc (unat i))) n (i + 1)"
    using lt' p by (subst sort_outer.simps) (simp only: if_True sum.case)
  also note IH
  also have "foldl (\<lambda>b i. sort_pass b (n - Suc i)) (sort_pass buf (n - Suc (unat i)))
      [unat (i + 1) ..< n - 1]
    = foldl (\<lambda>b i. sort_pass b (n - Suc i)) buf [unat i ..< n - 1]"
    unfolding u s by simp
  finally show ?case .
qed

subsection \<open>One pass\<close>

lemma sort_pass_Suc: "sort_pass xs (Suc m) = cmp_swap (sort_pass xs m) m (Suc m)"
  by (simp add: sort_pass_def)

lemma sort_pass_0 [simp]: "sort_pass xs 0 = xs"
  by (simp add: sort_pass_def)

lemma cmp_swap_append:
  "b < length ys \<Longrightarrow> a < length ys \<Longrightarrow> cmp_swap (ys @ zs) a b = cmp_swap ys a b @ zs"
  by (simp add: cmp_swap_def nth_append list_update_append)

lemma sort_pass_append: "m < length xs \<Longrightarrow> sort_pass (xs @ zs) m = sort_pass xs m @ zs"
  by (induction m) (simp_all add: sort_pass_Suc cmp_swap_append)

lemma mset_cmp_swap: "a < length ys \<Longrightarrow> b < length ys \<Longrightarrow> mset (cmp_swap ys a b) = mset ys"
  by (simp add: cmp_swap_def mset_swap)

lemma mset_sort_pass: "m < length xs \<Longrightarrow> mset (sort_pass xs m) = mset xs"
  by (induction m) (simp_all add: sort_pass_Suc mset_cmp_swap)

lemma sort_pass_max:
  "m < length xs \<Longrightarrow> a \<le> m \<Longrightarrow> seq (sort_pass xs m ! a) \<le> seq (sort_pass xs m ! m)"
proof (induction m arbitrary: a)
  case 0
  then show ?case by simp
next
  case (Suc m)
  let ?ys = "sort_pass xs m"
  have len: "Suc m < length ?ys" using Suc.prems by simp
  have IH: "\<And>c. c \<le> m \<Longrightarrow> seq (?ys ! c) \<le> seq (?ys ! m)"
    using Suc.IH Suc.prems by simp
  show ?case
  proof (cases "seq (?ys ! m) > seq (?ys ! Suc m)")
    case True
    then have e: "sort_pass xs (Suc m) = ?ys[m := ?ys ! Suc m, Suc m := ?ys ! m]"
      by (simp add: sort_pass_Suc cmp_swap_def)
    show ?thesis
    proof (cases "a = Suc m")
      case True
      then show ?thesis by simp
    next
      case False
      then have am: "a \<le> m" using Suc.prems by simp
      show ?thesis
      proof (cases "a = m")
        case True
        with e len \<open>seq (?ys ! m) > seq (?ys ! Suc m)\<close> show ?thesis by simp
      next
        case False
        with am e len IH [of a] show ?thesis by simp
      qed
    qed
  next
    case False
    then have e: "sort_pass xs (Suc m) = ?ys" by (simp add: sort_pass_Suc cmp_swap_def)
    show ?thesis
    proof (cases "a = Suc m")
      case True
      then show ?thesis by simp
    next
      case False
      then have "a \<le> m" using Suc.prems by simp
      then have "seq (?ys ! a) \<le> seq (?ys ! m)" by (rule IH)
      also have "\<dots> \<le> seq (?ys ! Suc m)" using \<open>\<not> seq (?ys ! m) > seq (?ys ! Suc m)\<close> by simp
      finally show ?thesis using e by simp
    qed
  qed
qed

lemma sort_pass_split:
  assumes "m < length xs"
  shows "sort_pass xs m = sort_pass (take (Suc m) xs) m @ drop (Suc m) xs"
proof -
  have "sort_pass (take (Suc m) xs @ drop (Suc m) xs) m
          = sort_pass (take (Suc m) xs) m @ drop (Suc m) xs"
    using assms by (intro sort_pass_append) simp
  then show ?thesis by simp
qed

lemma sort_pass_beyond:
  assumes "m < length xs" "m < b"
  shows "sort_pass xs m ! b = xs ! b"
proof -
  have l: "length (sort_pass (take (Suc m) xs) m) = Suc m" using assms by simp
  have "sort_pass xs m ! b = (sort_pass (take (Suc m) xs) m @ drop (Suc m) xs) ! b"
    using sort_pass_split [OF assms(1)] by simp
  also have "\<dots> = drop (Suc m) xs ! (b - Suc m)"
    using assms l by (simp add: nth_append)
  also have "\<dots> = xs ! b"
  proof (cases "b < length xs")
    case True
    then show ?thesis using assms by simp
  next
    case False
    then show ?thesis using assms by (simp add: nth_drop)
  qed
  finally show ?thesis .
qed

lemma sort_pass_within:
  assumes "m < length xs" "a \<le> m"
  shows "\<exists>c \<le> m. sort_pass xs m ! a = xs ! c"
proof -
  let ?p = "sort_pass (take (Suc m) xs) m"
  have l: "length ?p = Suc m" using assms by simp
  have "sort_pass xs m ! a = ?p ! a"
    using sort_pass_split [OF assms(1)] assms l by (simp add: nth_append)
  moreover have "?p ! a \<in> set ?p" using l assms by simp
  moreover have "set ?p = set (take (Suc m) xs)"
    using mset_sort_pass [of m "take (Suc m) xs"] assms by (metis l length_sort_pass lessI mset_eq_setD)
  ultimately have "sort_pass xs m ! a \<in> set (take (Suc m) xs)" by simp
  then obtain c where "c < length (take (Suc m) xs)" "take (Suc m) xs ! c = sort_pass xs m ! a"
    by (auto simp: in_set_conv_nth)
  then show ?thesis using assms by (intro exI [of _ c]) simp
qed

subsection \<open>All passes: the result is a sorted permutation\<close>

lemma length_passes [simp]:
  "length (foldl (\<lambda>b i. sort_pass b (n - Suc i)) xs [0..<k]) = length xs"
  by (induction k) simp_all

lemma mset_passes:
  "0 < n \<Longrightarrow> n \<le> length xs \<Longrightarrow>
     mset (foldl (\<lambda>b i. sort_pass b (n - Suc i)) xs [0..<k]) = mset xs"
  by (induction k) (simp_all add: mset_sort_pass)

lemma passes_append:
  "0 < n \<Longrightarrow> n \<le> length xs \<Longrightarrow>
     foldl (\<lambda>b i. sort_pass b (n - Suc i)) (xs @ zs) [0..<k]
       = foldl (\<lambda>b i. sort_pass b (n - Suc i)) xs [0..<k] @ zs"
  by (induction k) (simp_all add: sort_pass_append)

lemma passes_sorted_suffix:
  assumes "n = length xs" "k \<le> n - 1" "n - k \<le> q" "q < n" "p \<le> q"
  shows "seq (foldl (\<lambda>b i. sort_pass b (n - Suc i)) xs [0..<k] ! p)
           \<le> seq (foldl (\<lambda>b i. sort_pass b (n - Suc i)) xs [0..<k] ! q)"
  using assms(2-5)
proof (induction k arbitrary: p q)
  case 0
  then show ?case by simp
next
  case (Suc k)
  let ?b = "foldl (\<lambda>b i. sort_pass b (n - Suc i)) xs [0..<k]"
  let ?m = "n - Suc k"
  have e: "foldl (\<lambda>b i. sort_pass b (n - Suc i)) xs [0..<Suc k] = sort_pass ?b ?m" by simp
  have m: "?m < length ?b" using Suc.prems assms(1) by simp
  have kn: "k \<le> n - 1" using Suc.prems by simp
  have IH: "\<And>p q. n - k \<le> q \<Longrightarrow> q < n \<Longrightarrow> p \<le> q \<Longrightarrow> seq (?b ! p) \<le> seq (?b ! q)"
    using Suc.IH kn by blast
  show ?case
  proof (cases "q = ?m")
    case True
    then show ?thesis unfolding e using sort_pass_max [OF m, of p] Suc.prems by simp
  next
    case False
    then have q: "?m < q" "n - k \<le> q" using Suc.prems by simp_all
    have bq: "sort_pass ?b ?m ! q = ?b ! q" using m q(1) by (rule sort_pass_beyond)
    show ?thesis
    proof (cases "p \<le> ?m")
      case True
      then obtain c where c: "c \<le> ?m" "sort_pass ?b ?m ! p = ?b ! c"
        using sort_pass_within [OF m] by blast
      then have "c \<le> q" using q by simp
      then have "seq (?b ! c) \<le> seq (?b ! q)" using IH q Suc.prems by simp
      then show ?thesis unfolding e bq c(2) .
    next
      case False
      then have "sort_pass ?b ?m ! p = ?b ! p" using m by (intro sort_pass_beyond) simp_all
      moreover have "seq (?b ! p) \<le> seq (?b ! q)" using IH q Suc.prems by simp
      ultimately show ?thesis unfolding e bq by simp
    qed
  qed
qed

lemma length_sort_passes [simp]: "length (sort_passes xs) = length xs"
  by (simp add: sort_passes_def)

lemma mset_sort_passes: "mset (sort_passes xs) = mset xs"
proof (cases "xs = []")
  case True
  then show ?thesis by (simp add: sort_passes_def)
next
  case False
  then show ?thesis unfolding sort_passes_def by (intro mset_passes) simp_all
qed

lemma sorted_sort_passes: "sorted (map seq (sort_passes xs))"
proof -
  have "seq (sort_passes xs ! p) \<le> seq (sort_passes xs ! q)"
    if "p \<le> q" "q < length xs" for p q
  proof (cases "q = 0")
    case True
    then show ?thesis using that by simp
  next
    case False
    then show ?thesis unfolding sort_passes_def
      using that by (intro passes_sorted_suffix) simp_all
  qed
  then show ?thesis by (simp add: sorted_iff_nth_mono)
qed

lemma sort_pass_sorted_id:
  assumes "\<And>k. k < m \<Longrightarrow> seq (xs ! k) \<le> seq (xs ! Suc k)"
  shows "sort_pass xs m = xs"
  using assms
proof (induction m)
  case 0
  then show ?case by simp
next
  case (Suc m)
  then have "sort_pass xs m = xs" by simp
  moreover have "\<not> seq (xs ! m) > seq (xs ! Suc m)" using Suc.prems [of m] by simp
  ultimately show ?case by (simp add: sort_pass_Suc cmp_swap_def)
qed

lemma sort_passes_sorted_id:
  assumes "sorted (map seq xs)"
  shows "sort_passes xs = xs"
proof -
  have step: "sort_pass xs m = xs" if "m < length xs" for m
  proof (rule sort_pass_sorted_id)
    fix k assume "k < m"
    then have "k \<le> Suc k" "Suc k < length (map seq xs)" using that by simp_all
    then have "map seq xs ! k \<le> map seq xs ! Suc k"
      using assms sorted_nth_mono by blast
    then show "seq (xs ! k) \<le> seq (xs ! Suc k)" using \<open>k < m\<close> that by simp
  qed
  have "foldl (\<lambda>b i. sort_pass b (length xs - Suc i)) xs [0..<k] = xs" if "k \<le> length xs - 1" for k
    using that
  proof (induction k)
    case 0
    then show ?case by simp
  next
    case (Suc k)
    then have "length xs - Suc k < length xs" by simp
    then show ?case using Suc step by simp
  qed
  then show ?thesis by (simp add: sort_passes_def)
qed

lemma sort_outer_passes:
  assumes "0 < n" "n < 2 ^ 32" "n \<le> length buf"
  shows "sort_outer buf n 0 = Inr (sort_passes (take n buf) @ drop n buf)"
proof -
  have l: "length (take n buf) = n" using assms by simp
  have "sort_outer buf n 0 = Inr (foldl (\<lambda>b i. sort_pass b (n - Suc i)) buf [0 ..< n - 1])"
    using sort_outer_fold [OF assms, of 0] by simp
  also have "foldl (\<lambda>b i. sort_pass b (n - Suc i)) buf [0 ..< n - 1]
      = foldl (\<lambda>b i. sort_pass b (n - Suc i)) (take n buf @ drop n buf) [0 ..< n - 1]"
    by simp
  also have "\<dots> = foldl (\<lambda>b i. sort_pass b (n - Suc i)) (take n buf) [0 ..< n - 1] @ drop n buf"
    using assms l by (intro passes_append) simp_all
  also have "foldl (\<lambda>b i. sort_pass b (n - Suc i)) (take n buf) [0 ..< n - 1]
      = sort_passes (take n buf)"
    using l by (simp add: sort_passes_def)
  finally show ?thesis .
qed

subsection \<open>The copy loops collect the valid entries in core order\<close>

lemma copy_loop_result:
  assumes "nat max_entries \<le> length buf"
  shows "copy_loop log buf cnt max_entries i endp =
     Inr (take cnt buf
            @ take (nat max_entries - cnt) (map (\<lambda>p. entries log ! (p mod 256)) [unat i ..< unat endp])
            @ drop (cnt + min (unat endp - unat i) (nat max_entries - cnt)) buf,
          cnt + min (unat endp - unat i) (nat max_entries - cnt))"
  using assms
proof (induction "unat endp - unat i" arbitrary: buf cnt i)
  case 0
  then have "\<not> i < endp" by (simp add: word_less_nat_alt)
  then show ?case using 0 by (subst copy_loop.simps) simp
next
  case (Suc d)
  then have lt: "i < endp" by (simp add: word_less_nat_alt)
  then have s: "unat (i + 1) = Suc (unat i)" by (rule unat_succ)
  have u: "[unat i ..< unat endp] = unat i # [Suc (unat i) ..< unat endp]"
    using Suc(2) by (simp add: upt_rec)
  show ?case
  proof (cases "int cnt < max_entries")
    case False
    then have "nat max_entries - cnt = 0" by simp
    then show ?thesis using False by (subst copy_loop.simps) simp
  next
    case True
    then have c: "cnt < length buf" using Suc(3) by simp
    define v where "v = entries log ! (unat i mod 256)"
    define vs where "vs = map (\<lambda>p. entries log ! (p mod 256)) [Suc (unat i) ..< unat endp]"
    define M where "M = nat max_entries - Suc cnt"
    have d: "d = unat endp - unat (i + 1)" using Suc(2) s by simp
    have l: "nat max_entries \<le> length (buf[cnt := v])" using Suc(3) by simp
    have m: "entries log ! unat (i mod 256) = v" by (simp add: unat_mod v_def)
    have k: "nat max_entries - cnt = Suc M" using True by (simp add: M_def)
    have a: "unat endp - unat i = Suc (unat endp - Suc (unat i))" using Suc(2) by simp
    have t: "take (Suc cnt) (buf[cnt := v]) = take cnt buf @ [v]"
      using c by (simp add: take_Suc_conv_app_nth)
    have vv: "map (\<lambda>p. entries log ! (p mod 256)) [unat i ..< unat endp] = v # vs"
      unfolding u vs_def v_def by simp
    have "copy_loop log buf cnt max_entries i endp
            = copy_loop log (buf[cnt := v]) (cnt + 1) max_entries (i + 1) endp"
      using lt True c unfolding m [symmetric] by (subst copy_loop.simps) simp
    also have "\<dots> = Inr (take (cnt + 1) (buf[cnt := v])
            @ take (nat max_entries - (cnt + 1))
                (map (\<lambda>p. entries log ! (p mod 256)) [unat (i + 1) ..< unat endp])
            @ drop (cnt + 1 + min (unat endp - unat (i + 1)) (nat max_entries - (cnt + 1)))
                (buf[cnt := v]),
          cnt + 1 + min (unat endp - unat (i + 1)) (nat max_entries - (cnt + 1)))"
      using d l by (rule Suc(1))
    also have "\<dots> = Inr ((take cnt buf @ [v]) @ take M vs
            @ drop (Suc (cnt + min (unat endp - Suc (unat i)) M)) buf,
          Suc (cnt + min (unat endp - Suc (unat i)) M))"
      unfolding s by (simp add: t vs_def M_def)
    also have "\<dots> = Inr (take cnt buf @ take (Suc M) (v # vs)
            @ drop (cnt + min (Suc (unat endp - Suc (unat i))) (Suc M)) buf,
          cnt + min (Suc (unat endp - Suc (unat i))) (Suc M))"
      by simp
    finally show ?thesis unfolding vv k a .
  qed
qed

lemma snapshot_range_unat:
  "unat (fst (snapshot_range log)) = unat (head log) - 256"
  "snd (snapshot_range log) = head log"
proof -
  show "unat (fst (snapshot_range log)) = unat (head log) - 256"
  proof (cases "head log > 256")
    case True
    then have "(256 :: uint) \<le> head log" by simp
    then have "unat (head log - 256) = unat (head log) - unat (256 :: uint)" by (rule unat_sub)
    then show ?thesis using True by (simp add: snapshot_range_def)
  next
    case False
    then have "unat (head log) \<le> 256" by (simp add: word_less_nat_alt)
    then show ?thesis using False by (simp add: snapshot_range_def)
  qed
  show "snd (snapshot_range log) = head log" by (simp add: snapshot_range_def)
qed

lemma length_valid_entries: "length (valid_entries log) = min 256 (unat (head log))"
  by (simp add: valid_entries_def)

lemma snapshot_cpu_result:
  assumes "nat max_entries \<le> length buf"
  shows "snapshot_cpu log buf cnt max_entries =
     Inr (take cnt buf @ take (nat max_entries - cnt) (valid_entries log)
            @ drop (cnt + min (length (valid_entries log)) (nat max_entries - cnt)) buf,
          cnt + min (length (valid_entries log)) (nat max_entries - cnt))"
proof -
  have "unat (head log) - (unat (head log) - 256) = min 256 (unat (head log))" by simp
  then show ?thesis
    unfolding snapshot_cpu_def copy_loop_result [OF assms] snapshot_range_unat
      valid_entries_def length_map length_upt by simp
qed

lemma snapshot_cpus_result:
  assumes "nat max_entries \<le> length buf" "cnt \<le> length buf"
  shows "snapshot_cpus logs buf cnt max_entries =
     Inr (take cnt buf @ take (nat max_entries - cnt) (concat (map valid_entries logs))
            @ drop (cnt + min (length (concat (map valid_entries logs))) (nat max_entries - cnt)) buf,
          cnt + min (length (concat (map valid_entries logs))) (nat max_entries - cnt))"
  using assms
proof (induction logs arbitrary: buf cnt)
  case Nil
  then show ?case by simp
next
  case (Cons log logs)
  define M where "M = nat max_entries"
  define v where "v = valid_entries log"
  define rest where "rest = concat (map valid_entries logs)"
  define k where "k = min (length v) (M - cnt)"
  define A where "A = take cnt buf"
  define B where "B = take (M - cnt) v"
  have lA: "length A = cnt" using Cons.prems by (simp add: A_def)
  have lB: "length B = k" by (simp add: B_def k_def)
  have kb: "cnt + k \<le> length buf" using Cons.prems by (auto simp: k_def M_def min_def)
  have lD: "length (drop (cnt + k) buf) = length buf - (cnt + k)" by simp
  have l: "length (A @ B @ drop (cnt + k) buf) = length buf"
    using kb by (simp add: lA lB)
  have l1: "nat max_entries \<le> length (A @ B @ drop (cnt + k) buf)"
    "cnt + k \<le> length (A @ B @ drop (cnt + k) buf)"
    using Cons.prems kb unfolding l by simp_all
  have tk: "take (cnt + k) (A @ B @ drop (cnt + k) buf) = A @ B"
    by (simp add: lA lB)
  have dr: "drop (cnt + k + j) (A @ B @ drop (cnt + k) buf) = drop (cnt + k + j) buf" for j
    by (simp add: lA lB add.commute)
  have ta: "B @ take (M - (cnt + k)) rest = take (M - cnt) (v @ rest)"
    by (auto simp: B_def k_def min_def)
  have mn: "k + min (length rest) (M - (cnt + k)) = min (length (v @ rest)) (M - cnt)"
    by (auto simp: k_def min_def)
  have "snapshot_cpus (log # logs) buf cnt max_entries
          = snapshot_cpus logs (A @ B @ drop (cnt + k) buf) (cnt + k) max_entries"
    using snapshot_cpu_result [OF Cons.prems(1), of log cnt]
    by (simp add: A_def B_def k_def M_def v_def)
  also have "\<dots> = Inr (take (cnt + k) (A @ B @ drop (cnt + k) buf)
            @ take (nat max_entries - (cnt + k)) (concat (map valid_entries logs))
            @ drop (cnt + k + min (length (concat (map valid_entries logs)))
                                 (nat max_entries - (cnt + k))) (A @ B @ drop (cnt + k) buf),
          cnt + k + min (length (concat (map valid_entries logs))) (nat max_entries - (cnt + k)))"
    using l1 by (rule Cons.IH)
  also have "\<dots> = Inr (A @ (B @ take (M - (cnt + k)) rest)
            @ drop (cnt + (k + min (length rest) (M - (cnt + k)))) buf,
          cnt + (k + min (length rest) (M - (cnt + k))))"
    unfolding tk dr by (simp add: M_def rest_def add.assoc)
  also have "\<dots> = Inr (A @ take (M - cnt) (v @ rest)
            @ drop (cnt + min (length (v @ rest)) (M - cnt)) buf,
          cnt + min (length (v @ rest)) (M - cnt))"
    unfolding ta mn ..
  finally show ?case by (simp add: A_def M_def v_def rest_def)
qed

lemma length_collected:
  "length (collected logs max_entries)
     = min (length (concat (map valid_entries logs))) (nat max_entries)"
  by (simp add: collected_def)

lemma snapshot_cpus_collected:
  assumes "nat max_entries \<le> length buf"
  shows "snapshot_cpus logs buf 0 max_entries =
     Inr (collected logs max_entries @ drop (length (collected logs max_entries)) buf,
          length (collected logs max_entries))"
  using snapshot_cpus_result [OF assms, of 0 logs]
  by (simp add: collected_def)

lemma klog_snapshot_collected:
  assumes "nat max_entries \<le> length buf" "collected (cpu_logs st) max_entries \<noteq> []"
    and "max_entries < 2 ^ 31"
  shows "klog_snapshot st buf max_entries =
     Inr (st, sort_passes (collected (cpu_logs st) max_entries)
                @ drop (length (collected (cpu_logs st) max_entries)) buf,
          length (collected (cpu_logs st) max_entries))"
proof -
  let ?xs = "collected (cpu_logs st) max_entries"
  let ?n = "length ?xs"
  let ?buf = "?xs @ drop ?n buf"
  have n: "0 < ?n" using assms(2) by simp
  have nm: "?n \<le> nat max_entries" by (simp add: collected_def)
  have "nat max_entries < 2147483648" using assms(3) by simp
  with nm have "?n < 4294967296" by linarith
  then have n32: "?n < 2 ^ 32" by simp
  have nl: "?n \<le> length ?buf" by simp
  have "sort_outer ?buf ?n 0 = Inr (sort_passes (take ?n ?buf) @ drop ?n ?buf)"
    using n n32 nl by (rule sort_outer_passes)
  then have "sort_outer ?buf ?n 0 = Inr (sort_passes ?xs @ drop ?n buf)" by simp
  then show ?thesis
    unfolding klog_snapshot_def snapshot_cpus_collected [OF assms(1)] by simp
qed

subsection \<open>The sort when nothing was collected\<close>

lemma uint_minus_one: "(- 1 :: uint) = 4294967295"
  by simp

lemma unat_max_uint: "unat (- 1 :: uint) = 4294967295"
  unfolding uint_minus_one by simp

lemma sort_inner_zero:
  assumes "unat j \<le> length buf" "length buf < 2 ^ 32 - 1"
  shows "sort_inner buf 0 0 j = Inl (OutOfBounds (length buf))"
  using assms
proof (induction "length buf - unat j" arbitrary: buf j)
  case 0
  then have e: "unat j = length buf" by simp
  have "unat j < unat (- 1 :: uint)" using 0(3) e by (simp add: unat_max_uint)
  then have "j < of_nat 0 - 0 - 1" by (simp add: word_less_nat_alt)
  then show ?case using e by (subst sort_inner.simps) simp
next
  case (Suc d)
  have "unat j < unat (- 1 :: uint)" using Suc(3,4) by (simp add: unat_max_uint)
  then have lt: "j < of_nat 0 - 0 - 1" by (simp add: word_less_nat_alt)
  then have s: "unat (j + 1) = Suc (unat j)" by (rule unat_succ)
  have jl: "unat j < length buf" using Suc(2) by simp
  show ?case
  proof (cases "length buf \<le> unat (j + 1)")
    case True
    then have "unat (j + 1) = length buf" using jl s by simp
    then show ?thesis using lt jl True by (subst sort_inner.simps) simp
  next
    case False
    let ?buf = "cmp_swap buf (unat j) (unat (j + 1))"
    have "d = length ?buf - unat (j + 1)" using Suc(2) s by simp
    moreover have "unat (j + 1) \<le> length ?buf" using False by simp
    moreover have "length ?buf < 2 ^ 32 - 1" using Suc(4) by simp
    ultimately have "sort_inner ?buf 0 0 (j + 1) = Inl (OutOfBounds (length ?buf))"
      by (rule Suc(1))
    then show ?thesis using lt jl False by (subst sort_inner.simps) simp
  qed
qed

lemma sort_outer_zero:
  assumes "length buf < 2 ^ 32 - 1"
  shows "sort_outer buf 0 0 = Inl (OutOfBounds (length buf))"
proof -
  have "(0 :: uint) < word_of_int (int 0 - 1)" by (simp add: word_gt_0)
  moreover have "sort_inner buf 0 0 0 = Inl (OutOfBounds (length buf))"
    using assms by (intro sort_inner_zero) simp_all
  ultimately show ?thesis by (subst sort_outer.simps) simp
qed

lemma snapshot_cpus_heads_zero:
  "\<forall>log \<in> set logs. head log = 0 \<Longrightarrow> snapshot_cpus logs buf cnt max_entries = Inr (buf, cnt)"
proof (induction logs)
  case Nil
  then show ?case by simp
next
  case (Cons log logs)
  then have "head log = 0" by simp
  then have "snapshot_cpu log buf cnt max_entries = Inr (buf, cnt)"
    unfolding snapshot_cpu_def snapshot_range_def by (subst copy_loop.simps) simp
  then show ?case using Cons by simp
qed

lemma snapshot_cpus_no_budget:
  "max_entries \<le> int cnt \<Longrightarrow> snapshot_cpus logs buf cnt max_entries = Inr (buf, cnt)"
proof (induction logs)
  case Nil
  then show ?case by simp
next
  case (Cons log logs)
  then have "snapshot_cpu log buf cnt max_entries = Inr (buf, cnt)"
    unfolding snapshot_cpu_def by (subst copy_loop.simps) simp
  then show ?case using Cons by simp
qed

lemma klog_snapshot_heads_zero:
  assumes "\<forall>log \<in> set (cpu_logs st). head log = 0" "length buf < 2 ^ 32 - 1"
  shows "klog_snapshot st buf max_entries = Inl (OutOfBounds (length buf))"
  unfolding klog_snapshot_def snapshot_cpus_heads_zero [OF assms(1)]
  using sort_outer_zero [OF assms(2)] by simp

lemma klog_snapshot_no_budget:
  assumes "max_entries \<le> 0" "length buf < 2 ^ 32 - 1"
  shows "klog_snapshot st buf max_entries = Inl (OutOfBounds (length buf))"
proof -
  have "snapshot_cpus (cpu_logs st) buf 0 max_entries = Inr (buf, 0)"
    using assms(1) by (intro snapshot_cpus_no_budget) simp
  then show ?thesis
    unfolding klog_snapshot_def using sort_outer_zero [OF assms(2)] by simp
qed

text \<open>
  Claim C9. The claim: \<^verbatim>\<open>klog_snapshot\<close> touches only the positions \<open>0 .. count-1\<close> of the
  destination, and with every ring empty (as after \<^verbatim>\<open>klog_clear\<close>) it returns 0 and its
  sort touches nothing. The code: with \<open>count = 0\<close> the bound \<^verbatim>\<open>count - 1\<close> is \<open>-1\<close>, which
  the comparison with the \<^verbatim>\<open>uint\<close> counter reads as \<open>2^32 - 1\<close>; both loops run, the
  inner one reads \<^verbatim>\<open>buf[j]\<close> and \<^verbatim>\<open>buf[j+1]\<close> for \<open>j = 0, 1, ...\<close> and leaves the
  destination array at its end, whatever its length.
\<close>

theorem klog_snapshot_empty_overruns:
  assumes "length buf < 2 ^ 32 - 1"
  shows "klog_snapshot (klog_clear st) buf max_entries = Inl (OutOfBounds (length buf))"
proof -
  have "\<forall>log \<in> set (cpu_logs (klog_clear st)). head log = 0"
    by (simp add: klog_clear_def)
  then show ?thesis using assms by (rule klog_snapshot_heads_zero)
qed

theorem klog_snapshot_empty_overruns_witness:
  "klog_snapshot (klog_clear (boot_state 2)) (replicate 64 zero_entry) 64
     = Inl (OutOfBounds 64)"
  using klog_snapshot_empty_overruns [of "replicate 64 zero_entry" "boot_state 2" 64]
  by simp

subsection \<open>Wraparound of one ring\<close>

lemma valid_entries_empty: "head log = 0 \<Longrightarrow> valid_entries log = []"
  by (simp add: valid_entries_def)

lemma concat_valid_empty:
  "\<forall>l \<in> set logs. head l = 0 \<Longrightarrow> concat (map valid_entries logs) = []"
  by (induction logs) (simp_all add: valid_entries_empty)

lemma sorted_map_seq_ascending:
  assumes "\<And>p q. a \<le> p \<Longrightarrow> p < q \<Longrightarrow> q < b \<Longrightarrow> seq (recs p) < seq (recs q)"
  shows "sorted (map seq (map recs [a..<b]))"
proof -
  have "seq (recs (a + i)) \<le> seq (recs (a + j))" if "i \<le> j" "j < b - a" for i j
  proof (cases "i = j")
    case True
    then show ?thesis by simp
  next
    case False
    then have "seq (recs (a + i)) < seq (recs (a + j))" using that by (intro assms) simp_all
    then show ?thesis by simp
  qed
  then show ?thesis by (simp add: sorted_iff_nth_mono)
qed

text \<open>
  Claim C1. One core's ring of capacity \<open>N = 256\<close> holds the records appended at the
  cursor positions \<open>0 .. head-1\<close> with \<open>head = N + k\<close>, \<open>k > 0\<close>: slot \<open>p mod N\<close> holds the
  record \<open>recs p\<close> of the latest position \<open>p\<close> that fell on it, and the sequence numbers
  grow with the position. The other cores are empty. Then \<^verbatim>\<open>klog_snapshot\<close> with
  \<open>max_entries \<ge> N\<close> returns \<open>N\<close> and leaves exactly the records of the positions
  \<open>head-N .. head-1\<close> in the destination, in ascending sequence order; none of the
  earliest \<open>k\<close> records is among them.
\<close>

theorem klog_snapshot_wraparound:
  assumes cores: "cpu_logs st = before @ [log] @ after"
      "\<forall>l \<in> set before \<union> set after. head l = 0"
    and hd: "unat (head log) = KLOG_BUF_SIZE + k" "0 < k"
    and ring: "\<And>p. k \<le> p \<Longrightarrow> p < KLOG_BUF_SIZE + k
                  \<Longrightarrow> entries log ! (p mod KLOG_BUF_SIZE) = recs p"
    and asc: "\<And>p q. p < q \<Longrightarrow> q < KLOG_BUF_SIZE + k \<Longrightarrow> seq (recs p) < seq (recs q)"
    and mx: "int KLOG_BUF_SIZE \<le> max_entries" "max_entries < 2 ^ 31"
      "nat max_entries \<le> length buf"
  shows "klog_snapshot st buf max_entries
           = Inr (st, map recs [k ..< KLOG_BUF_SIZE + k] @ drop KLOG_BUF_SIZE buf, KLOG_BUF_SIZE)
         \<and> (\<forall>p < k. recs p \<notin> set (map recs [k ..< KLOG_BUF_SIZE + k]))"
proof -
  let ?xs = "map recs [k ..< 256 + k]"
  have v: "valid_entries log = ?xs"
    unfolding valid_entries_def using hd ring by (simp add: KLOG_BUF_SIZE_def)
  have e: "concat (map valid_entries before) = []" "concat (map valid_entries after) = []"
    using cores(2) by (simp_all add: concat_valid_empty)
  have "concat (map valid_entries (cpu_logs st))
      = concat (map valid_entries before) @ valid_entries log @ concat (map valid_entries after)"
    unfolding cores(1) by simp
  then have "concat (map valid_entries (cpu_logs st)) = ?xs"
    unfolding e v by simp
  then have c: "collected (cpu_logs st) max_entries = ?xs"
    using mx(1) by (simp add: collected_def KLOG_BUF_SIZE_def)
  have "sorted (map seq ?xs)"
    using asc by (intro sorted_map_seq_ascending) (simp_all add: KLOG_BUF_SIZE_def)
  then have s: "sort_passes ?xs = ?xs" by (rule sort_passes_sorted_id)
  have ne: "collected (cpu_logs st) max_entries \<noteq> []" unfolding c by simp
  have r: "klog_snapshot st buf max_entries = Inr (st, ?xs @ drop 256 buf, 256)"
    using klog_snapshot_collected [OF mx(3) ne mx(2)] unfolding c s by simp
  have "recs p \<notin> set ?xs" if "p < k" for p
  proof
    assume "recs p \<in> set ?xs"
    then obtain q where q: "k \<le> q" "q < 256 + k" "recs q = recs p" by auto
    then have "seq (recs p) < seq (recs q)"
      using that by (intro asc) (simp_all add: KLOG_BUF_SIZE_def)
    then show False using q(3) by simp
  qed
  then show ?thesis using r by (simp add: KLOG_BUF_SIZE_def)
qed

theorem klog_snapshot_wraparound_witness:
  "klog_snapshot wrap_state (replicate 256 zero_entry) 256
     = Inr (wrap_state, map wrap_entry [44 ..< 300], 256)"
proof -
  have c: "cpu_logs wrap_state = [] @ [wrap_log] @ []"
    "\<forall>l \<in> set [] \<union> set []. head l = 0"
    by (simp_all add: wrap_state_def)
  have h: "unat (head wrap_log) = KLOG_BUF_SIZE + 44" "0 < (44 :: nat)"
    by (simp_all add: wrap_log_def KLOG_BUF_SIZE_def)
  have ring: "entries wrap_log ! (p mod KLOG_BUF_SIZE) = wrap_entry p"
    if "44 \<le> p" "p < KLOG_BUF_SIZE + 44" for p
  proof (cases "p < 256")
    case True
    then show ?thesis using that by (simp add: wrap_log_def KLOG_BUF_SIZE_def)
  next
    case False
    then have "p mod 256 = p - 256" using that by (simp add: KLOG_BUF_SIZE_def le_mod_geq)
    then show ?thesis using that False by (simp add: wrap_log_def KLOG_BUF_SIZE_def)
  qed
  have asc: "seq (wrap_entry p) < seq (wrap_entry q)"
    if "p < q" "q < KLOG_BUF_SIZE + 44" for p q
    using that by (simp add: wrap_entry_def KLOG_BUF_SIZE_def word_less_nat_alt unat_of_nat)
  have m: "int KLOG_BUF_SIZE \<le> 256" "(256 :: int) < 2 ^ 31"
    "nat 256 \<le> length (replicate 256 zero_entry)"
    by (simp_all add: KLOG_BUF_SIZE_def)
  from klog_snapshot_wraparound [of wrap_state "[]" wrap_log "[]" 44 wrap_entry 256
      "replicate 256 zero_entry", OF c h ring asc m]
  show ?thesis by (simp add: KLOG_BUF_SIZE_def)
qed

subsection \<open>The budget\<close>

lemma valid_entries_small:
  assumes "unat (head log) \<le> 256"
  shows "valid_entries log = map ((!) (entries log)) [0 ..< unat (head log)]"
  using assms by (simp add: valid_entries_def)

lemma set_sort_passes: "set (sort_passes xs) = set xs"
  using mset_sort_passes [of xs] by (rule mset_eq_setD)

text \<open>
  Claim C2. The budget is spent in ascending core order. Core 0 and core 1 hold ten valid
  records each (whatever the later cores hold): \<^verbatim>\<open>klog_snapshot\<close> with \<open>max_entries = 12\<close>
  returns 12, and the first 12 places of the destination hold the ten records of core 0
  and the two oldest of core 1, sorted ascending by sequence number. When the twenty
  records are pairwise different, none of the other eight records of core 1 is among them.
\<close>

theorem klog_snapshot_budget_core_order:
  assumes "cpu_logs st = log0 # log1 # rest" and "head log0 = 10" and "head log1 = 10"
    and "12 \<le> length buf"
  shows "\<exists>buf'. klog_snapshot st buf 12 = Inr (st, buf', 12)
     \<and> mset (take 12 buf')
           = mset (map ((!) (entries log0)) [0..<10] @ map ((!) (entries log1)) [0..<2])
     \<and> sorted (map seq (take 12 buf'))
     \<and> (distinct (map ((!) (entries log0)) [0..<10] @ map ((!) (entries log1)) [0..<10])
          \<longrightarrow> (\<forall>p. 2 \<le> p \<and> p < 10 \<longrightarrow> entries log1 ! p \<notin> set (take 12 buf')))"
proof -
  define v0 where "v0 = map ((!) (entries log0)) [0..<10]"
  define v1 where "v1 = map ((!) (entries log1)) [0..<10]"
  define xs where "xs = v0 @ take 2 v1"
  have l: "length v0 = 10" "length v1 = 10" by (simp_all add: v0_def v1_def)
  have "valid_entries log0 = v0" "valid_entries log1 = v1"
    using assms(2,3) by (simp_all add: valid_entries_small v0_def v1_def)
  then have "concat (map valid_entries (cpu_logs st)) = v0 @ v1 @ concat (map valid_entries rest)"
    unfolding assms(1) by simp
  then have c: "collected (cpu_logs st) 12 = xs"
    by (simp add: collected_def xs_def l)
  have lx: "length xs = 12" by (simp add: xs_def l)
  have t2: "take 2 v1 = map ((!) (entries log1)) [0..<2]"
  proof -
    have "take 2 [0..<10] = [0..<(2::nat)]" by (simp add: upt_rec)
    then show ?thesis by (simp only: v1_def take_map)
  qed
  have ne: "collected (cpu_logs st) 12 \<noteq> []" unfolding c using lx by auto
  have r: "klog_snapshot st buf 12 = Inr (st, sort_passes xs @ drop 12 buf, 12)"
    using klog_snapshot_collected [of 12 buf st, OF _ ne] assms(4) unfolding c lx by simp
  have tk: "take 12 (sort_passes xs @ drop 12 buf) = sort_passes xs" using lx by simp
  have "entries log1 ! p \<notin> set xs" if d: "distinct (v0 @ v1)" and p: "2 \<le> p" "p < 10" for p
  proof
    assume a: "entries log1 ! p \<in> set xs"
    have e: "entries log1 ! p = v1 ! p" using p by (simp add: v1_def)
    have d1: "distinct v1" and d01: "set v0 \<inter> set v1 = {}" using d by simp_all
    have "v1 ! p \<in> set v1" using p l by simp
    then have "v1 ! p \<notin> set v0" using d01 by auto
    then have "v1 ! p \<in> set (take 2 v1)" using a e by (simp add: xs_def)
    then obtain q where q: "q < 2" "v1 ! q = v1 ! p"
      using l by (auto simp: in_set_conv_nth)
    then have "q = p" using d1 l p by (simp add: nth_eq_iff_index_eq)
    then show False using q p by simp
  qed
  then have a: "distinct (map ((!) (entries log0)) [0..<10] @ map ((!) (entries log1)) [0..<10])
      \<longrightarrow> (\<forall>p. 2 \<le> p \<and> p < 10
            \<longrightarrow> entries log1 ! p \<notin> set (take 12 (sort_passes xs @ drop 12 buf)))"
    unfolding tk set_sort_passes v0_def v1_def by blast
  have "mset (take 12 (sort_passes xs @ drop 12 buf)) = mset (v0 @ take 2 v1)"
    unfolding tk by (simp add: mset_sort_passes xs_def)
  then have b: "mset (take 12 (sort_passes xs @ drop 12 buf))
      = mset (map ((!) (entries log0)) [0..<10] @ map ((!) (entries log1)) [0..<2])"
    unfolding t2 v0_def .
  have c': "sorted (map seq (take 12 (sort_passes xs @ drop 12 buf)))"
    unfolding tk by (rule sorted_sort_passes)
  show ?thesis
    by (rule exI [of _ "sort_passes xs @ drop 12 buf"]) (intro conjI r b c' a)
qed

theorem klog_snapshot_budget_core_order_witness:
  "\<exists>buf'. klog_snapshot pair_state (replicate 12 zero_entry) 12 = Inr (pair_state, buf', 12)
     \<and> mset (take 12 buf')
           = mset (map wrap_entry [0, 2, 4, 6, 8, 10, 12, 14, 16, 18] @ map wrap_entry [1, 3])
     \<and> sorted (map seq (take 12 buf'))"
proof -
  have c: "cpu_logs pair_state = pair_log 0 # pair_log 1 # []"
    by (simp add: pair_state_def)
  have h: "head (pair_log 0) = 10" "head (pair_log 1) = 10"
    by (simp_all add: pair_log_def)
  have l: "12 \<le> length (replicate 12 zero_entry)" by simp
  have e0: "map ((!) (entries (pair_log 0))) [0..<10]
      = map wrap_entry [0, 2, 4, 6, 8, 10, 12, 14, 16, 18]"
    by (simp add: pair_log_def upt_rec)
  have e1: "map ((!) (entries (pair_log 1))) [0..<2] = map wrap_entry [1, 3]"
    by (simp add: pair_log_def upt_rec)
  from klog_snapshot_budget_core_order [OF c h l]
  show ?thesis unfolding e0 e1 by blast
qed

subsection \<open>Reading twice\<close>

lemma collected_nonempty:
  assumes "\<exists>log \<in> set logs. head log \<noteq> 0" "0 < max_entries"
  shows "collected logs max_entries \<noteq> []"
proof -
  obtain log where log: "log \<in> set logs" "head log \<noteq> 0" using assms(1) by blast
  then have "unat (head log) \<noteq> 0" by (simp add: unat_eq_0)
  then have "valid_entries log \<noteq> []" by (simp add: valid_entries_def)
  then have "concat (map valid_entries logs) \<noteq> []" using log(1) by auto
  then show ?thesis using assms(2) by (simp add: collected_def)
qed

lemma klog_snapshot_Inr:
  assumes "klog_snapshot st buf max_entries = Inr (st', buf', n)"
    and "nat max_entries \<le> length buf"
  shows "st' = st" and "n = length (collected (cpu_logs st) max_entries)"
  using assms unfolding klog_snapshot_def snapshot_cpus_collected [OF assms(2)]
  by (auto split: sum.splits)

text \<open>
  The calls that return. \<^verbatim>\<open>klog_snapshot\<close> stores into no ring: the state a returning
  call leaves is the state it was given (cursors, drop counters and entries of every ring),
  so a second returning call with the same \<open>max_entries\<close> gives the same count and the same
  records in the same order, whatever the two destination arrays held before. The call
  returns whenever some ring is non-empty and \<open>max_entries\<close> is positive. The destination
  arrays hold at least \<open>max_entries\<close> records, and \<open>max_entries\<close> is a C \<^verbatim>\<open>int\<close>.
\<close>

lemma klog_snapshot_returning_read_only:
  assumes "max_entries < 2 ^ 31"
    and "nat max_entries \<le> length buf1" and "nat max_entries \<le> length buf2"
  shows "(\<forall>st1 b1 n1 st2 b2 n2.
            klog_snapshot st buf1 max_entries = Inr (st1, b1, n1)
            \<and> klog_snapshot st1 buf2 max_entries = Inr (st2, b2, n2)
            \<longrightarrow> st1 = st \<and> st2 = st \<and> n1 = n2 \<and> take n1 b1 = take n2 b2)
         \<and> ((\<exists>log \<in> set (cpu_logs st). head log \<noteq> 0) \<and> 0 < max_entries
            \<longrightarrow> (\<exists>b n. klog_snapshot st buf1 max_entries = Inr (st, b, n)))"
proof (intro conjI allI impI)
  fix st1 b1 n1 st2 b2 n2
  assume a: "klog_snapshot st buf1 max_entries = Inr (st1, b1, n1)
      \<and> klog_snapshot st1 buf2 max_entries = Inr (st2, b2, n2)"
  let ?xs = "collected (cpu_logs st) max_entries"
  have s1: "st1 = st" and n1: "n1 = length ?xs"
    using klog_snapshot_Inr [OF _ assms(2)] a by blast+
  have s2: "st2 = st" and n2: "n2 = length ?xs"
    using klog_snapshot_Inr [OF _ assms(3), of st1 st2 b2 n2] a s1 by simp_all
  have "take n1 b1 = take n2 b2"
  proof (cases "?xs = []")
    case True
    then show ?thesis using n1 n2 by simp
  next
    case False
    have a1: "klog_snapshot st buf1 max_entries = Inr (st1, b1, n1)"
      and a2: "klog_snapshot st buf2 max_entries = Inr (st2, b2, n2)"
      using a s1 by simp_all
    have k1: "klog_snapshot st buf1 max_entries
        = Inr (st, sort_passes ?xs @ drop (length ?xs) buf1, length ?xs)"
      using assms(2) False assms(1) by (rule klog_snapshot_collected)
    have b1: "b1 = sort_passes ?xs @ drop (length ?xs) buf1" using a1 unfolding k1 by auto
    have k2: "klog_snapshot st buf2 max_entries
        = Inr (st, sort_passes ?xs @ drop (length ?xs) buf2, length ?xs)"
      using assms(3) False assms(1) by (rule klog_snapshot_collected)
    have b2: "b2 = sort_passes ?xs @ drop (length ?xs) buf2" using a2 unfolding k2 by auto
    show ?thesis unfolding b1 b2 n1 n2 by simp
  qed
  then show "st1 = st" "st2 = st" "n1 = n2" "take n1 b1 = take n2 b2"
    using s1 s2 n1 n2 by simp_all
next
  assume "(\<exists>log \<in> set (cpu_logs st). head log \<noteq> 0) \<and> 0 < max_entries"
  then have "collected (cpu_logs st) max_entries \<noteq> []"
    by (intro collected_nonempty) simp_all
  then show "\<exists>b n. klog_snapshot st buf1 max_entries = Inr (st, b, n)"
    using klog_snapshot_collected [OF assms(2) _ assms(1)] by blast
qed

lemma klog_snapshot_returning_read_only_example:
  "\<exists>b1 b2 n. klog_snapshot pair_state (replicate 12 zero_entry) 12 = Inr (pair_state, b1, n)
      \<and> klog_snapshot pair_state (replicate 64 (wrap_entry 7)) 12 = Inr (pair_state, b2, n)
      \<and> take n b1 = take n b2"
proof -
  have m: "(12 :: int) < 2 ^ 31" "nat 12 \<le> length (replicate 12 zero_entry)"
    "nat 12 \<le> length (replicate 64 (wrap_entry 7))"
    by simp_all
  have ne: "(\<exists>log \<in> set (cpu_logs pair_state). head log \<noteq> 0) \<and> 0 < (12 :: int)"
    by (simp add: pair_state_def pair_log_def)
  note t = klog_snapshot_returning_read_only [of 12 "replicate 12 zero_entry" "replicate 64 (wrap_entry 7)"
      pair_state, OF m]
  from t ne obtain b1 n where r1:
    "klog_snapshot pair_state (replicate 12 zero_entry) 12 = Inr (pair_state, b1, n)"
    by blast
  note t' = klog_snapshot_returning_read_only [of 12 "replicate 64 (wrap_entry 7)" "replicate 12 zero_entry"
      pair_state, OF m(1) m(3) m(2)]
  from t' ne obtain b2 n' where r2:
    "klog_snapshot pair_state (replicate 64 (wrap_entry 7)) 12 = Inr (pair_state, b2, n')"
    by blast
  from t r1 r2 have "n = n' \<and> take n b1 = take n' b2" by blast
  then show ?thesis using r1 r2 by blast
qed

text \<open>
  Claim C6. The claim: \<^verbatim>\<open>klog_snapshot\<close> changes no ring, and consequently two consecutive
  calls with the same \<open>max_entries\<close> and no record operation between them return the same
  count and the same records. The code: that holds of the calls that return, but with
  every ring empty, the state \<^verbatim>\<open>klog_clear\<close> leaves, there is no count to compare. The
  first call collects nothing, \<^verbatim>\<open>count - 1\<close> is read as \<open>2^32 - 1\<close>, and the sort runs off
  the end of the destination array; the second call, on the same rings, does the same.
  Neither call returns, for any \<open>max_entries\<close> and any two destination arrays.
\<close>

theorem klog_snapshot_twice_empty_log:
  assumes "length buf1 < 2 ^ 32 - 1" "length buf2 < 2 ^ 32 - 1"
  shows "klog_snapshot (klog_clear st) buf1 max_entries = Inl (OutOfBounds (length buf1))
       \<and> klog_snapshot (klog_clear st) buf2 max_entries = Inl (OutOfBounds (length buf2))
       \<and> (\<forall>r. klog_snapshot (klog_clear st) buf1 max_entries \<noteq> Inr r)"
proof -
  have z: "\<forall>log \<in> set (cpu_logs (klog_clear st)). head log = 0"
    by (simp add: klog_clear_def)
  have a: "klog_snapshot (klog_clear st) buf1 max_entries = Inl (OutOfBounds (length buf1))"
    using z assms(1) by (rule klog_snapshot_heads_zero)
  have b: "klog_snapshot (klog_clear st) buf2 max_entries = Inl (OutOfBounds (length buf2))"
    using z assms(2) by (rule klog_snapshot_heads_zero)
  show ?thesis using a b by simp
qed

theorem klog_snapshot_twice_empty_log_witness:
  "klog_snapshot (klog_clear pair_state) (replicate 12 zero_entry) 12 = Inl (OutOfBounds 12)
   \<and> klog_snapshot (klog_clear pair_state) (replicate 64 (wrap_entry 7)) 12
       = Inl (OutOfBounds 64)"
  using klog_snapshot_twice_empty_log
    [of "replicate 12 zero_entry" "replicate 64 (wrap_entry 7)" pair_state 12]
  by simp

subsection \<open>Appending a record\<close>

lemma cpu_logs_klog_append:
  "cpu_logs (klog_append env st lvl buf) =
     (cpu_logs st)[nat (env_cpuid env) :=
        append_log env (global_seq st) lvl buf (cpu_logs st ! nat (env_cpuid env))]"
  by (simp add: klog_append_def next_seq_def Let_def)

lemma global_seq_klog_append:
  "global_seq (klog_append env st lvl buf) = global_seq st + 1"
  by (simp add: klog_append_def next_seq_def Let_def)

lemma dropped_append_log [simp]: "dropped (append_log env s lvl buf log) = dropped log"
  by (simp add: append_log_def Let_def)

lemma head_append_log [simp]: "head (append_log env s lvl buf log) = head log + 1"
  by (simp add: append_log_def Let_def)

lemma klog_printf_internal_Inr:
  assumes "klog_printf_internal env st lvl fmt ap = Inr st'"
  shows "(env_cpuid env < 0 \<or> env_cpuid env \<ge> int (NCPU st)) \<and> st' = st
       \<or> 0 \<le> env_cpuid env \<and> nat (env_cpuid env) < NCPU st
           \<and> (\<exists>buf. format_msg env fmt ap = Inr buf \<and> st' = klog_append env st lvl buf)"
  using assms by (auto simp: klog_printf_internal_def split: if_splits sum.splits)

lemma klog_printf_internal_dropped:
  assumes "klog_printf_internal env st lvl fmt ap = Inr st'"
    and "\<forall>log \<in> set (cpu_logs st). dropped log = 0"
  shows "\<forall>log \<in> set (cpu_logs st'). dropped log = 0"
proof -
  consider "st' = st"
    | buf where "nat (env_cpuid env) < NCPU st" "st' = klog_append env st lvl buf"
    using klog_printf_internal_Inr [OF assms(1)] by blast
  then show ?thesis
  proof cases
    case 1
    then show ?thesis using assms(2) by simp
  next
    case 2
    let ?c = "nat (env_cpuid env)"
    have "cpu_logs st ! ?c \<in> set (cpu_logs st)" using 2(1) by (simp add: NCPU_def)
    then have d: "dropped (cpu_logs st ! ?c) = 0" using assms(2) by blast
    show ?thesis
    proof
      fix log assume "log \<in> set (cpu_logs st')"
      then have "log \<in> insert (append_log env (global_seq st) lvl buf (cpu_logs st ! ?c))
          (set (cpu_logs st))"
        unfolding 2(2) cpu_logs_klog_append using set_update_subset_insert by fast
      then show "dropped log = 0" using d assms(2) by auto
    qed
  qed
qed

lemma klog_snapshot_state:
  "klog_snapshot st buf max_entries = Inr (st', buf', n) \<Longrightarrow> st' = st"
  by (auto simp: klog_snapshot_def split: sum.splits)

lemma klog_step_dropped:
  assumes "klog_step st op = Inr st'" and "\<forall>log \<in> set (cpu_logs st). dropped log = 0"
  shows "\<forall>log \<in> set (cpu_logs st'). dropped log = 0"
proof (cases op)
  case (Record env lvl fmt ap)
  then show ?thesis
    using assms klog_printf_internal_dropped [of env st lvl fmt ap st']
    by (simp add: klog_printf_level_def)
next
  case (Snapshot buf max_entries)
  then show ?thesis using assms by (auto split: sum.splits dest: klog_snapshot_state)
next
  case Clear
  then show ?thesis using assms by (auto simp: klog_clear_def)
qed

lemma klog_steps_dropped:
  assumes "klog_steps st ops = Inr st'" and "\<forall>log \<in> set (cpu_logs st). dropped log = 0"
  shows "\<forall>log \<in> set (cpu_logs st'). dropped log = 0"
  using assms
proof (induction ops arbitrary: st)
  case Nil
  then show ?case by simp
next
  case (Cons op ops)
  from Cons.prems(1) obtain st1 where s: "klog_step st op = Inr st1" "klog_steps st1 ops = Inr st'"
    by (cases "klog_step st op") simp_all
  from s(1) Cons.prems(2) have "\<forall>log \<in> set (cpu_logs st1). dropped log = 0"
    by (rule klog_step_dropped)
  with s(2) show ?case by (rule Cons.IH)
qed

lemma klog_get_dropped_zero:
  assumes "\<forall>log \<in> set (cpu_logs st). dropped log = 0"
  shows "klog_get_dropped st = 0"
proof -
  have "foldl (\<lambda>total log. total + dropped log) a logs = a"
    if "\<forall>log \<in> set logs. dropped log = 0" for a :: uint and logs
    using that by (induction logs arbitrary: a) simp_all
  then show ?thesis using assms by (simp add: klog_get_dropped_def)
qed

text \<open>
  Claim C8. No operation increments a drop counter. After \<^verbatim>\<open>klog_init\<close> and any sequence
  of record, snapshot and clear operations (records that overwrite ring entries included),
  the \<^verbatim>\<open>dropped\<close> field of every core is 0 and \<^verbatim>\<open>klog_get_dropped\<close> returns 0.
\<close>

theorem dropped_never_incremented:
  assumes "klog_init env st0 ap = Inr st1" and "klog_steps st1 ops = Inr st"
  shows "(\<forall>log \<in> set (cpu_logs st). dropped log = 0) \<and> klog_get_dropped st = 0"
proof -
  let ?st = "st0\<lparr>cpu_logs := map (\<lambda>log. log\<lparr>head := 0, dropped := 0\<rparr>) (cpu_logs st0)\<rparr>"
  have z: "\<forall>log \<in> set (cpu_logs ?st). dropped log = 0" by simp
  have "klog_printf_internal env ?st KLOG_INFO
      ''klog: logging subsystem initialized'' ap = Inr st1"
    using assms(1) by (simp add: klog_init_def klog_printf_def)
  from this z have "\<forall>log \<in> set (cpu_logs st1). dropped log = 0"
    by (rule klog_printf_internal_dropped)
  with assms(2) have "\<forall>log \<in> set (cpu_logs st). dropped log = 0"
    by (rule klog_steps_dropped)
  then show ?thesis using klog_get_dropped_zero by simp
qed

theorem dropped_never_incremented_witness:
  "\<exists>st1 st. klog_init env0 (boot_state 2) (\<lambda>_. 0) = Inr st1
     \<and> klog_steps st1 [Record env0 3 ''disk %d'' (\<lambda>_. 7),
                        Snapshot (replicate 4 zero_entry) 4, Clear] = Inr st
     \<and> klog_get_dropped st = 0"
proof -
  let ?ops = "[Record env0 3 ''disk %d'' (\<lambda>_. 7), Snapshot (replicate 4 zero_entry) 4, Clear]"
  have "case klog_init env0 (boot_state 2) (\<lambda>_. 0) of
          Inl f \<Rightarrow> False
        | Inr st1 \<Rightarrow> (case klog_steps st1 ?ops of Inl f \<Rightarrow> False | Inr st \<Rightarrow> True)"
    by code_simp
  then obtain st1 where a: "klog_init env0 (boot_state 2) (\<lambda>_. 0) = Inr st1"
    and "case klog_steps st1 ?ops of Inl f \<Rightarrow> False | Inr st \<Rightarrow> True"
    by (cases "klog_init env0 (boot_state 2) (\<lambda>_. 0)") auto
  then obtain st where b: "klog_steps st1 ?ops = Inr st"
    by (cases "klog_steps st1 ?ops") auto
  from dropped_never_incremented [OF a b] show ?thesis using a b by blast
qed

subsection \<open>Sequence numbers\<close>

lemma length_entries_append_log [simp]:
  "length (entries (append_log env s lvl buf log)) = length (entries log)"
  by (simp add: append_log_def Let_def)

lemma rings_ok_klog_append:
  assumes "rings_ok st"
  shows "rings_ok (klog_append env st lvl buf)"
  unfolding rings_ok_def cpu_logs_klog_append list_all_length
proof (intro allI impI)
  fix n
  let ?c = "nat (env_cpuid env)"
  let ?log = "append_log env (global_seq st) lvl buf (cpu_logs st ! ?c)"
  assume "n < length ((cpu_logs st)[?c := ?log])"
  then have n: "n < length (cpu_logs st)" by simp
  then have l: "length (entries (cpu_logs st ! n)) = KLOG_BUF_SIZE"
    using assms by (simp add: rings_ok_def list_all_length)
  show "length (entries ((cpu_logs st)[?c := ?log] ! n)) = KLOG_BUF_SIZE"
  proof (cases "n = ?c")
    case True
    then show ?thesis using n l by simp
  next
    case False
    then show ?thesis using n l by simp
  qed
qed

lemma seq_fill_entry [simp]: "seq (fill_entry env s lvl buf e) = s"
  by (simp add: fill_entry_def)

lemma written_klog_append:
  assumes "rings_ok st" "0 \<le> env_cpuid env" "nat (env_cpuid env) < NCPU st"
  shows "map seq (written env st (klog_append env st lvl buf)) = [global_seq st]"
proof -
  let ?c = "nat (env_cpuid env)"
  let ?log = "cpu_logs st ! ?c"
  have "length (entries ?log) = 256"
    using assms(1,3) by (simp add: rings_ok_def list_all_length NCPU_def KLOG_BUF_SIZE_def)
  moreover have "unat (head ?log mod 256) < 256"
    by (simp add: unat_mod)
  ultimately have "seq (entries (append_log env (global_seq st) lvl buf ?log)
      ! unat (head ?log mod 256)) = global_seq st"
    by (simp add: append_log_def Let_def)
  then show ?thesis
    using assms(2,3) by (simp add: written_def cpu_logs_klog_append NCPU_def)
qed

lemma klog_run_seqs:
  assumes "klog_run st rs = Inr (st', es)" and "rings_ok st"
  shows "map seq es = map (\<lambda>a. global_seq st + of_nat a) [0 ..< length es]
         \<and> length es \<le> length rs"
  using assms
proof (induction rs arbitrary: st es)
  case Nil
  then show ?case by simp
next
  case (Cons r rs)
  obtain env lvl fmt ap where r: "r = (env, lvl, fmt, ap)" by (cases r)
  from Cons.prems(1) obtain st1 where s1: "klog_printf_level env st lvl fmt ap = Inr st1"
    unfolding r by (cases "klog_printf_level env st lvl fmt ap") simp_all
  from Cons.prems(1) obtain es1 where s2: "klog_run st1 rs = Inr (st', es1)"
    and es: "es = written env st st1 @ es1"
    unfolding r using s1 by (cases "klog_run st1 rs") auto
  consider "(env_cpuid env < 0 \<or> env_cpuid env \<ge> int (NCPU st))" "st1 = st"
    | buf where "0 \<le> env_cpuid env" "nat (env_cpuid env) < NCPU st"
        "st1 = klog_append env st lvl buf"
    using klog_printf_internal_Inr [of env st lvl fmt ap st1] s1
    by (auto simp: klog_printf_level_def)
  then show ?case
  proof cases
    case 1
    then have "written env st st1 = []" by (simp add: written_def)
    then show ?thesis using Cons.IH [OF s2] Cons.prems(2) 1(2) es by auto
  next
    case 2
    have ok: "rings_ok st1" unfolding 2(3) using Cons.prems(2) by (rule rings_ok_klog_append)
    have w: "map seq (written env st st1) = [global_seq st]"
      unfolding 2(3) using Cons.prems(2) 2(1,2) by (rule written_klog_append)
    then have lw: "length (written env st st1) = 1"
      by (metis length_map length_Cons list.size(3) One_nat_def)
    have g: "global_seq st1 = global_seq st + 1" unfolding 2(3) by (rule global_seq_klog_append)
    have IH: "map seq es1 = map (\<lambda>a. global_seq st + 1 + of_nat a) [0 ..< length es1]"
      "length es1 \<le> length rs"
      using Cons.IH [OF s2 ok] unfolding g by simp_all
    have "map (\<lambda>a. global_seq st + of_nat a) [0 ..< Suc (length es1)]
        = global_seq st # map (\<lambda>a. global_seq st + 1 + of_nat a) [0 ..< length es1]"
      by (simp add: upt_conv_Cons map_Suc_upt [symmetric] add.assoc del: upt_Suc)
    then show ?thesis using IH w lw unfolding es by simp
  qed
qed

text \<open>
  Claim C5. A run of record operations issues its sequence numbers before the counter
  wraps: the counter's value plus the number of calls is at most \<open>2^32\<close>. Then the records
  produced carry strictly growing sequence numbers in call order (so for two calls on the
  same core the later record has the larger number), and the numbers are pairwise
  distinct.
\<close>

theorem seq_unique_and_monotone:
  assumes "klog_run st rs = Inr (st', es)"
    and "unat (global_seq st) + length rs \<le> 2 ^ 32"
    and "rings_ok st"
  shows "(\<forall>a b. a < b \<and> b < length es \<longrightarrow> seq (es ! a) < seq (es ! b))
         \<and> distinct (map seq es)"
proof -
  have m: "map seq es = map (\<lambda>a. global_seq st + of_nat a) [0 ..< length es]"
    and l: "length es \<le> length rs"
    using klog_run_seqs [OF assms(1,3)] by simp_all
  have u: "unat (seq (es ! a)) = unat (global_seq st) + a" if "a < length es" for a
  proof -
    have "seq (es ! a) = map seq es ! a" using that by simp
    also have "\<dots> = global_seq st + of_nat a" unfolding m using that by simp
    finally have e: "seq (es ! a) = global_seq st + of_nat a" .
    have a32: "a < 2 ^ 32" using that l assms(2) by simp
    then have ua: "unat (of_nat a :: uint) = a" by (simp add: unat_of_nat)
    have "unat (global_seq st) + unat (of_nat a :: uint) < 2 ^ LENGTH(32)"
      unfolding ua using that l assms(2) by simp
    then have "unat (global_seq st + of_nat a) = unat (global_seq st) + unat (of_nat a :: uint)"
      by (simp only: unat_add_lem)
    then show ?thesis unfolding e ua .
  qed
  have lt: "seq (es ! a) < seq (es ! b)" if "a < b" "b < length es" for a b
    using that u [of a] u [of b] by (simp add: word_less_nat_alt)
  have "distinct (map seq es)"
  proof (rule distinct_conv_nth [THEN iffD2], intro allI impI)
    fix i j
    assume "i < length (map seq es)" "j < length (map seq es)" "i \<noteq> j"
    then have "unat (seq (es ! i)) \<noteq> unat (seq (es ! j))" using u [of i] u [of j] by simp
    then show "map seq es ! i \<noteq> map seq es ! j"
      using \<open>i < length (map seq es)\<close> \<open>j < length (map seq es)\<close> by auto
  qed
  then show ?thesis using lt by blast
qed

lemma rings_ok_boot_state [simp]: "rings_ok (boot_state n)"
  by (simp add: rings_ok_def boot_state_def zero_log_def KLOG_BUF_SIZE_def list_all_iff)

theorem seq_unique_and_monotone_witness:
  "\<exists>st' es. klog_run (boot_state 2)
       [(env0, 1, ''a'', \<lambda>_. 0), (env1, 2, ''%s up'', \<lambda>_. 5), (env0, 3, ''c'', \<lambda>_. 0)]
         = Inr (st', es)
     \<and> length es = 3 \<and> seq (es ! 0) < seq (es ! 2) \<and> distinct (map seq es)"
proof -
  let ?rs = "[(env0, 1, ''a'', \<lambda>_. 0), (env1, 2, ''%s up'', \<lambda>_. 5), (env0, 3, ''c'', \<lambda>_. 0)]"
  have "case klog_run (boot_state 2) ?rs of Inl f \<Rightarrow> False | Inr (st', es) \<Rightarrow> length es = 3"
    by code_simp
  then obtain st' es where a: "klog_run (boot_state 2) ?rs = Inr (st', es)" and l: "length es = 3"
    by (cases "klog_run (boot_state 2) ?rs") auto
  have b: "unat (global_seq (boot_state 2)) + length ?rs \<le> 2 ^ 32"
    by (simp add: boot_state_def)
  from seq_unique_and_monotone [OF a b rings_ok_boot_state] l
  have "seq (es ! 0) < seq (es ! 2)" "distinct (map seq es)" by simp_all
  then show ?thesis using a l by blast
qed

subsection \<open>A run of record operations on one core, then a snapshot\<close>

text \<open>
  What the record operation leaves in a ring. After \<^verbatim>\<open>log->head++\<close> the slot
  \<open>p mod 256\<close> of every cursor position \<open>p\<close> among the latest 256 holds the record written
  at \<open>p\<close>: the append overwrites the slot of the position 256 back and no other. So after
  \<open>256 + k\<close> calls on one core of the freshly booted system, a snapshot with room for 256
  records returns the records of the calls \<open>k, ..., 255 + k\<close> in call order, and the
  records of the first \<open>k\<close> calls are gone. A run whose formats contain no directive always
  returns.
\<close>

lemma append_log_ring:
  assumes len: "length (entries log) = 256"
    and h: "unat (head log) + 1 < 2 ^ 32"
    and inv: "\<And>p. unat (head log) - 256 \<le> p \<Longrightarrow> p < unat (head log)
                 \<Longrightarrow> entries log ! (p mod 256) = recs p"
    and p: "unat (head (append_log env s lvl buf log)) - 256 \<le> p"
      "p < unat (head (append_log env s lvl buf log))"
  shows "entries (append_log env s lvl buf log) ! (p mod 256)
           = (recs (unat (head log) :=
                fill_entry env s lvl buf (entries log ! (unat (head log) mod 256)))) p"
proof -
  let ?h = "unat (head log)"
  have "unat (head log) + unat (1 :: uint) < 2 ^ LENGTH(32)" using h by simp
  then have "unat (head log + 1) = unat (head log) + unat (1 :: uint)"
    by (simp only: unat_add_lem)
  then have h1: "unat (head (append_log env s lvl buf log)) = ?h + 1" by simp
  have idx: "unat (head log mod 256) = ?h mod 256" by (simp add: unat_mod)
  have e: "entries (append_log env s lvl buf log)
      = (entries log)[?h mod 256 := fill_entry env s lvl buf (entries log ! (?h mod 256))]"
    by (simp add: append_log_def Let_def idx)
  show ?thesis
  proof (cases "p = ?h")
    case True
    then show ?thesis unfolding e using len by simp
  next
    case False
    then have lt: "p < ?h" and ge: "?h - 256 \<le> p" using p unfolding h1 by simp_all
    have "p mod 256 \<noteq> ?h mod 256"
    proof
      assume m: "p mod 256 = ?h mod 256"
      have "0 < ?h - p" "?h - p < 256" using lt p(1) unfolding h1 by simp_all
      moreover have "(256 :: nat) dvd ?h - p"
        using mod_eq_dvd_iff_nat [of p ?h 256] m lt by simp
      ultimately show False using nat_dvd_not_less by blast
    qed
    then have "entries (append_log env s lvl buf log) ! (p mod 256) = entries log ! (p mod 256)"
      unfolding e by simp
    then show ?thesis using inv [OF ge lt] False by simp
  qed
qed


lemma klog_append_core:
  assumes "rings_ok st" "c < NCPU st" "env_cpuid env = int c"
  shows "cpu_logs (klog_append env st lvl buf)
           = (cpu_logs st)[c := append_log env (global_seq st) lvl buf (cpu_logs st ! c)]"
    and "written env st (klog_append env st lvl buf)
           = [fill_entry env (global_seq st) lvl buf
                (entries (cpu_logs st ! c) ! (unat (head (cpu_logs st ! c)) mod 256))]"
proof -
  let ?log = "cpu_logs st ! c"
  show a: "cpu_logs (klog_append env st lvl buf)
           = (cpu_logs st)[c := append_log env (global_seq st) lvl buf ?log]"
    using assms(3) by (simp add: cpu_logs_klog_append)
  have len: "length (entries ?log) = 256"
    using assms(1,2) by (simp add: rings_ok_def list_all_length NCPU_def KLOG_BUF_SIZE_def)
  have idx: "unat (head ?log mod 256) = unat (head ?log) mod 256" by (simp add: unat_mod)
  have "entries (append_log env (global_seq st) lvl buf ?log) ! (unat (head ?log) mod 256)
      = fill_entry env (global_seq st) lvl buf (entries ?log ! (unat (head ?log) mod 256))"
    using len by (simp add: append_log_def Let_def idx)
  then show "written env st (klog_append env st lvl buf)
           = [fill_entry env (global_seq st) lvl buf
                (entries ?log ! (unat (head ?log) mod 256))]"
    unfolding written_def a using assms(2,3) by (simp add: NCPU_def idx)
qed

lemma klog_run_ring:
  assumes "klog_run st rs = Inr (st', es)"
    and "rings_ok st"
    and "c < NCPU st"
    and "\<forall>r \<in> set rs. env_cpuid (fst r) = int c"
    and "unat (head (cpu_logs st ! c)) + length rs < 2 ^ 32"
    and "\<And>p. unat (head (cpu_logs st ! c)) - 256 \<le> p \<Longrightarrow> p < unat (head (cpu_logs st ! c))
            \<Longrightarrow> entries (cpu_logs st ! c) ! (p mod 256) = recs p"
  shows "length es = length rs
       \<and> length (cpu_logs st') = length (cpu_logs st)
       \<and> (\<forall>d. d \<noteq> c \<longrightarrow> cpu_logs st' ! d = cpu_logs st ! d)
       \<and> unat (head (cpu_logs st' ! c)) = unat (head (cpu_logs st ! c)) + length rs
       \<and> (\<forall>p. unat (head (cpu_logs st ! c)) + length rs - 256 \<le> p
              \<and> p < unat (head (cpu_logs st ! c)) + length rs
            \<longrightarrow> entries (cpu_logs st' ! c) ! (p mod 256)
                  = (if p < unat (head (cpu_logs st ! c)) then recs p
                     else es ! (p - unat (head (cpu_logs st ! c)))))"
  using assms
proof (induction rs arbitrary: st es recs)
  case Nil
  then show ?case by simp
next
  case (Cons r rs)
  obtain env lvl fmt ap where r: "r = (env, lvl, fmt, ap)" by (cases r)
  let ?log = "cpu_logs st ! c"
  let ?h = "unat (head ?log)"
  have cpu: "env_cpuid env = int c" using Cons.prems(4) unfolding r by simp
  from Cons.prems(1) obtain st1 where s1: "klog_printf_level env st lvl fmt ap = Inr st1"
    unfolding r by (cases "klog_printf_level env st lvl fmt ap") simp_all
  from Cons.prems(1) obtain es1 where s2: "klog_run st1 rs = Inr (st', es1)"
    and es: "es = written env st st1 @ es1"
    unfolding r using s1 by (cases "klog_run st1 rs") auto
  obtain buf where st1: "st1 = klog_append env st lvl buf"
    using klog_printf_internal_Inr [of env st lvl fmt ap st1] s1 cpu Cons.prems(3)
    by (auto simp: klog_printf_level_def)
  define e where "e = fill_entry env (global_seq st) lvl buf (entries ?log ! (?h mod 256))"
  define log1 where "log1 = append_log env (global_seq st) lvl buf ?log"
  have logs1: "cpu_logs st1 = (cpu_logs st)[c := log1]"
    and w: "written env st st1 = [e]"
    unfolding st1 e_def log1_def
    using klog_append_core [OF Cons.prems(2,3) cpu] by simp_all
  have cl: "c < length (cpu_logs st)" using Cons.prems(3) by (simp add: NCPU_def)
  have at_c: "cpu_logs st1 ! c = log1" unfolding logs1 using cl by simp
  have len: "length (entries ?log) = 256"
    using Cons.prems(2) cl by (simp add: rings_ok_def list_all_length KLOG_BUF_SIZE_def)
  have hb: "?h + 1 < 2 ^ 32" using Cons.prems(5) by simp
  have "unat (head ?log) + unat (1 :: uint) < 2 ^ LENGTH(32)" using hb by simp
  then have "unat (head ?log + 1) = unat (head ?log) + unat (1 :: uint)"
    by (simp only: unat_add_lem)
  then have h1: "unat (head log1) = ?h + 1" by (simp add: log1_def)
  have ok1: "rings_ok st1" unfolding st1 using Cons.prems(2) by (rule rings_ok_klog_append)
  have n1: "c < NCPU st1" unfolding NCPU_def logs1 using cl by simp
  have all1: "\<forall>r \<in> set rs. env_cpuid (fst r) = int c" using Cons.prems(4) by simp
  have b1: "unat (head (cpu_logs st1 ! c)) + length rs < 2 ^ 32"
    unfolding at_c h1 using Cons.prems(5) by simp
  have ring1: "entries (cpu_logs st1 ! c) ! (p mod 256) = (recs (?h := e)) p"
    if "unat (head (cpu_logs st1 ! c)) - 256 \<le> p" "p < unat (head (cpu_logs st1 ! c))" for p
    unfolding at_c log1_def e_def
    using len hb Cons.prems(6) that [unfolded at_c log1_def]
    by (rule append_log_ring)
  note IH = Cons.IH [OF s2 ok1 n1 all1 b1 ring1, unfolded at_c h1]
  have l: "length es = length (r # rs)" unfolding es w using IH by simp
  have ll: "length (cpu_logs st') = length (cpu_logs st)" using IH unfolding logs1 by simp
  have oth: "cpu_logs st' ! d = cpu_logs st ! d" if "d \<noteq> c" for d
    using IH that unfolding logs1 by simp
  have hd': "unat (head (cpu_logs st' ! c)) = ?h + length (r # rs)" using IH by simp
  have ring': "entries (cpu_logs st' ! c) ! (p mod 256)
      = (if p < ?h then recs p else es ! (p - ?h))"
    if p: "?h + length (r # rs) - 256 \<le> p" "p < ?h + length (r # rs)" for p
  proof -
    have "entries (cpu_logs st' ! c) ! (p mod 256)
        = (if p < ?h + 1 then (recs (?h := e)) p else es1 ! (p - (?h + 1)))"
      using IH p by simp
    also have "\<dots> = (if p < ?h then recs p else es ! (p - ?h))"
    proof (cases "p < ?h")
      case True
      then show ?thesis by simp
    next
      case False
      show ?thesis
      proof (cases "p = ?h")
        case True
        then show ?thesis unfolding es w by simp
      next
        case f: False
        then have "p - ?h = Suc (p - (?h + 1))" using False by simp
        then show ?thesis unfolding es w using False f by simp
      qed
    qed
    finally show ?thesis .
  qed
  show ?case using l ll oth hd' ring' by blast
qed

lemma format_loop_plain:
  assumes "CHR ''%'' \<notin> set fmt" "length buf = 64" "i \<le> 63"
  shows "\<exists>buf' i'. format_loop mem fmt ap k buf i = Inr (buf', i')
           \<and> length buf' = 64 \<and> i' \<le> 63"
  using assms
proof (induction mem fmt ap k buf i rule: format_loop.induct)
  case (1 mem ap k buf i)
  then show ?case by simp
next
  case (2 mem c ap k buf i)
  then show ?case by (auto simp: put_def)
next
  case (3 mem c d fmt ap k buf i)
  show ?case
  proof (cases "c = NUL \<or> \<not> i < 63")
    case True
    then show ?thesis using "3.prems" by auto
  next
    case False
    have c: "c \<noteq> CHR ''%''" using "3.prems"(1) by auto
    have p: "put buf i c = Inr (buf[i := c])" using False "3.prems"(2) by (simp add: put_def)
    have "\<exists>buf' i'. format_loop mem (d # fmt) ap k (buf[i := c]) (i + 1) = Inr (buf', i')
           \<and> length buf' = 64 \<and> i' \<le> 63"
      using False c p "3.prems" by (intro "3.IH"(1)) auto
    then show ?thesis using False c p by simp
  qed
qed

lemma format_msg_plain:
  assumes "CHR ''%'' \<notin> set fmt"
  shows "\<exists>buf. format_msg env fmt ap = Inr buf"
proof -
  have "\<exists>buf i. format_loop (env_str env) fmt ap 0 (map (env_stack env) [0..<64]) 0
      = Inr (buf, i) \<and> length buf = 64 \<and> i \<le> 63"
    by (rule format_loop_plain [OF assms]) simp_all
  then obtain buf i where r: "format_loop (env_str env) fmt ap 0 (map (env_stack env) [0..<64]) 0
      = Inr (buf, i)" and l: "length buf = 64" and b: "i \<le> 63"
    by blast
  then show ?thesis by (simp add: format_msg_def put_def)
qed

lemma klog_run_plain:
  assumes "\<forall>r \<in> set rs. CHR ''%'' \<notin> set (fst (snd (snd r)))"
  shows "\<exists>st' es. klog_run st rs = Inr (st', es)"
  using assms
proof (induction rs arbitrary: st)
  case Nil
  then show ?case by simp
next
  case (Cons r rs)
  obtain env lvl fmt ap where r: "r = (env, lvl, fmt, ap)" by (cases r)
  have "CHR ''%'' \<notin> set fmt" using Cons.prems unfolding r by simp
  then obtain buf where "format_msg env fmt ap = Inr buf" using format_msg_plain by blast
  then have "\<exists>st1. klog_printf_level env st lvl fmt ap = Inr st1"
    by (simp add: klog_printf_level_def klog_printf_internal_def)
  then obtain st1 where s1: "klog_printf_level env st lvl fmt ap = Inr st1" by blast
  obtain st' es where "klog_run st1 rs = Inr (st', es)"
    using Cons.IH [of st1] Cons.prems by auto
  then show ?case unfolding r using s1 by simp
qed

lemma klog_run_then_snapshot:
  assumes run: "klog_run (boot_state n) rs = Inr (st, es)"
    and c: "c < n" "\<forall>r \<in> set rs. env_cpuid (fst r) = int c"
    and len: "length rs = 256 + k" "256 + k < (2 :: nat) ^ 32"
    and mx: "256 \<le> max_entries" "max_entries < 2 ^ 31" "nat max_entries \<le> length buf"
  shows "klog_snapshot st buf max_entries = Inr (st, drop k es @ drop 256 buf, 256)"
proof -
  let ?b = "boot_state n"
  have h0: "unat (head (cpu_logs ?b ! c)) = 0"
    using c(1) by (simp add: boot_state_def zero_log_def)
  have nc: "c < NCPU ?b" using c(1) by (simp add: NCPU_def boot_state_def)
  have b: "unat (head (cpu_logs ?b ! c)) + length rs < 2 ^ 32" unfolding h0 len(1) using len(2) by simp
  have r0: "entries (cpu_logs ?b ! c) ! (p mod 256) = undefined p"
    if "unat (head (cpu_logs ?b ! c)) - 256 \<le> p" "p < unat (head (cpu_logs ?b ! c))" for p
    using that unfolding h0 by simp
  note R = klog_run_ring [OF run rings_ok_boot_state nc c(2) b r0, unfolded h0 len(1)]
  have les: "length es = 256 + k" using R by simp
  have ll: "length (cpu_logs st) = n" using R by (simp add: boot_state_def)
  have oth: "head (cpu_logs st ! d) = 0" if "d \<noteq> c" "d < n" for d
  proof -
    have "cpu_logs st ! d = cpu_logs ?b ! d" using R that(1) by simp
    then show ?thesis using that(2) by (simp add: boot_state_def zero_log_def)
  qed
  have hd: "unat (head (cpu_logs st ! c)) = 256 + k" using R by simp
  have ring: "entries (cpu_logs st ! c) ! (p mod 256) = es ! p" if "k \<le> p" "p < 256 + k" for p
    using R that by simp
  have "valid_entries (cpu_logs st ! c) = map (\<lambda>p. es ! p) [k ..< 256 + k]"
    unfolding valid_entries_def hd using ring by simp
  also have "\<dots> = drop k es"
    using les by (intro nth_equalityI) simp_all
  finally have v: "valid_entries (cpu_logs st ! c) = drop k es" .
  have split: "cpu_logs st = take c (cpu_logs st) @ [cpu_logs st ! c] @ drop (Suc c) (cpu_logs st)"
    using c(1) ll by (simp add: id_take_nth_drop [symmetric])
  have e1: "concat (map valid_entries (take c (cpu_logs st))) = []"
  proof (rule concat_valid_empty, rule ballI)
    fix l assume "l \<in> set (take c (cpu_logs st))"
    then obtain d where "d < c" "l = cpu_logs st ! d"
      using c(1) ll by (auto simp: in_set_conv_nth)
    then show "head l = 0" using oth [of d] c(1) by simp
  qed
  have e2: "concat (map valid_entries (drop (Suc c) (cpu_logs st))) = []"
  proof (rule concat_valid_empty, rule ballI)
    fix l assume "l \<in> set (drop (Suc c) (cpu_logs st))"
    then obtain d where "d < n - Suc c" "l = cpu_logs st ! (Suc c + d)"
      using c(1) ll by (auto simp: in_set_conv_nth)
    then show "head l = 0" using oth [of "Suc c + d"] by simp
  qed
  have "concat (map valid_entries (cpu_logs st))
      = concat (map valid_entries (take c (cpu_logs st))) @ valid_entries (cpu_logs st ! c)
          @ concat (map valid_entries (drop (Suc c) (cpu_logs st)))"
    by (subst split) simp
  then have cc: "concat (map valid_entries (cpu_logs st)) = drop k es"
    unfolding e1 e2 v by simp
  have col: "collected (cpu_logs st) max_entries = drop k es"
    unfolding collected_def cc using mx(1) les by simp
  have sq: "map seq es = map (\<lambda>a. global_seq ?b + of_nat a) [0 ..< length es]"
    using klog_run_seqs [OF run rings_ok_boot_state] by simp
  have sa: "seq (es ! a) = of_nat a" if "a < 256 + k" for a
  proof -
    have "seq (es ! a) = map seq es ! a" using that les by simp
    also have "\<dots> = of_nat a" unfolding sq using that les by (simp add: boot_state_def)
    finally show ?thesis .
  qed
  have asc: "seq (es ! (k + i)) \<le> seq (es ! (k + j))" if "i \<le> j" "j < 256" for i j
  proof -
    have u: "unat (of_nat m :: uint) = m" if "m < 2 ^ 32" for m
      using that by (simp add: unat_of_nat)
    have "unat (of_nat (k + i) :: uint) = k + i" "unat (of_nat (k + j) :: uint) = k + j"
      using that len(2) by (intro u; simp)+
    then have "(of_nat (k + i) :: uint) \<le> of_nat (k + j)"
      using that(1) by (simp add: word_le_nat_alt)
    then show ?thesis using sa [of "k + i"] sa [of "k + j"] that by simp
  qed
  have "sorted (map seq (drop k es))"
    using asc les by (simp add: sorted_iff_nth_mono)
  then have s: "sort_passes (drop k es) = drop k es" by (rule sort_passes_sorted_id)
  have ne: "collected (cpu_logs st) max_entries \<noteq> []" unfolding col using les by simp
  show ?thesis
    using klog_snapshot_collected [OF mx(3) ne mx(2)] unfolding col s using les by simp
qed

subsection \<open>Formatting at the end of the staging array\<close>

text \<open>
  Every store of the formatting loop and of its helpers falls inside \<^verbatim>\<open>char buf[64]\<close>, and
  the loop ends with \<^verbatim>\<open>i\<close> at most 64: the only store that can leave the array is the
  final \<^verbatim>\<open>buf[i] = 0\<close>, at index 64.
\<close>

text \<open>
  The value \<^verbatim>\<open>snprintf_int\<close> takes the digits of: for every argument but \<^verbatim>\<open>INT_MIN\<close> the
  32-bit negation does not overflow, and the value is the absolute value of the argument.
\<close>

lemma sint_negation_exact:
  fixes w :: uint
  assumes "sint w \<noteq> - (2 ^ 31)"
  shows "sint (if sint w < 0 then - w else w) = \<bar>sint w\<bar>"
proof (cases "sint w < 0")
  case True
  have "sint (- w) = - sint w"
  proof -
    have r: "- (2 ^ 31) \<le> sint w" "sint w < 2 ^ 31" using sint_ge [of w] sint_lt [of w] by simp_all
    have "sint (- w) = signed_take_bit 31 (- sint w)"
      by (simp add: sint_word_ariths)
    also have "\<dots> = - sint w"
      using r assms by (intro signed_take_bit_int_eq_self) simp_all
    finally show ?thesis .
  qed
  then show ?thesis using True by simp
next
  case False
  then show ?thesis by simp
qed

lemma put_in_range: "k < length buf \<Longrightarrow> put buf k c = Inr (buf[k := c])"
  by (simp add: put_def)

lemma copy_tmp_in_range:
  assumes "length buf = 64" "int base + bsize \<le> 64" "int j < bsize"
  shows "\<exists>buf' j'. copy_tmp buf base bsize tmp i j = Inr (buf', j')
           \<and> length buf' = 64 \<and> int j' < bsize"
  using assms
proof (induction i arbitrary: buf j)
  case 0
  then show ?case by (subst copy_tmp.simps) simp
next
  case (Suc i)
  show ?case
  proof (cases "int j < bsize - 1")
    case False
    then show ?thesis using Suc.prems by (subst copy_tmp.simps) simp
  next
    case True
    then have "base + j < length buf" using Suc.prems by simp
    then have p: "put buf (base + j) (tmp ! i) = Inr (buf[base + j := tmp ! i])"
      by (rule put_in_range)
    have "\<exists>buf' j'. copy_tmp (buf[base + j := tmp ! i]) base bsize tmp i (j + 1) = Inr (buf', j')
           \<and> length buf' = 64 \<and> int j' < bsize"
      using Suc.prems True by (intro Suc.IH) simp_all
    then show ?thesis using True p by (subst copy_tmp.simps) simp
  qed
qed

lemma snprintf_int_in_range:
  assumes "length buf = 64" "int base + bsize \<le> 64" "0 < bsize"
  shows "\<exists>buf' j. snprintf_int buf base bsize w = Inr (buf', j)
           \<and> length buf' = 64 \<and> int j < bsize"
proof -
  define neg where "neg = (sint w < 0)"
  define tmp where "tmp = (if sint (if neg then - w else w) = 0 then [CHR ''0'']
                          else int_digits (sint (if neg then - w else w)) [])"
  define r1 :: "fault + string \<times> nat" where "r1 = (if neg \<and> 0 < bsize - 1
      then (case put buf base CHR ''-'' of Inl f \<Rightarrow> Inl f | Inr b \<Rightarrow> Inr (b, 1))
      else Inr (buf, 0))"
  have "\<exists>buf1 j1. r1 = Inr (buf1, j1) \<and> length buf1 = 64 \<and> int j1 < bsize"
  proof (cases "neg \<and> 0 < bsize - 1")
    case True
    then have "base < length buf" using assms by simp
    then have "put buf base CHR ''-'' = Inr (buf[base := CHR ''-''])" by (rule put_in_range)
    then have "r1 = Inr (buf[base := CHR ''-''], 1)" unfolding r1_def if_P [OF True] by simp
    then show ?thesis using True assms(1) by simp
  next
    case False
    then have "r1 = Inr (buf, 0)" unfolding r1_def by (rule if_not_P)
    then show ?thesis using assms by simp
  qed
  then obtain buf1 j1 where s1: "r1 = Inr (buf1, j1)" and l1: "length buf1 = 64"
    and j1: "int j1 < bsize"
    by blast
  obtain buf2 j where s2: "copy_tmp buf1 base bsize tmp (length tmp) j1 = Inr (buf2, j)"
    and l2: "length buf2 = 64" and j: "int j < bsize"
    using copy_tmp_in_range [OF l1 assms(2) j1] by blast
  have "base + j < length buf2" using l2 j assms(2) by simp
  then have p: "put buf2 (base + j) NUL = Inr (buf2[base + j := NUL])" by (rule put_in_range)
  have "snprintf_int buf base bsize w =
      (case r1 of Inl f \<Rightarrow> Inl f
       | Inr (buf1, j1) \<Rightarrow>
           (case copy_tmp buf1 base bsize tmp (length tmp) j1 of
              Inl f \<Rightarrow> Inl f
            | Inr (buf2, j) \<Rightarrow>
                (case put buf2 (base + j) NUL of
                   Inl f \<Rightarrow> Inl f
                 | Inr buf3 \<Rightarrow> Inr (buf3, j))))"
    using assms(3) unfolding snprintf_int_def Let_def r1_def tmp_def neg_def by simp
  then have "snprintf_int buf base bsize w = Inr (buf2[base + j := NUL], j)"
    unfolding s1 using s2 p by simp
  then show ?thesis using l2 j by simp
qed

lemma snprintf_hex_in_range:
  assumes "length buf = 64" "int base + bsize \<le> 64" "0 < bsize"
  shows "\<exists>buf' j. snprintf_hex buf base bsize w = Inr (buf', j)
           \<and> length buf' = 64 \<and> int j < bsize"
proof (cases "bsize \<le> 2")
  case True
  then show ?thesis using assms by (simp add: snprintf_hex_def)
next
  case False
  define tmp where "tmp = (if w = 0 then [CHR ''0''] else hex_digits w [])"
  have b: "base < length buf" "base + 1 < length (buf[base := CHR ''0''])"
    using False assms by simp_all
  have p1: "put buf base CHR ''0'' = Inr (buf[base := CHR ''0''])"
    using b(1) by (rule put_in_range)
  have p2: "put (buf[base := CHR ''0'']) (base + 1) CHR ''x''
      = Inr (buf[base := CHR ''0'', base + 1 := CHR ''x''])"
    using b(2) by (rule put_in_range)
  have l: "length (buf[base := CHR ''0'', base + 1 := CHR ''x'']) = 64" using assms(1) by simp
  have "int 2 < bsize" using False by simp
  then obtain buf3 j where s: "copy_tmp (buf[base := CHR ''0'', base + 1 := CHR ''x''])
      base bsize tmp (length tmp) 2 = Inr (buf3, j)"
    and l3: "length buf3 = 64" and j: "int j < bsize"
    using copy_tmp_in_range [OF l assms(2)] by blast
  have "base + j < length buf3" using l3 j assms(2) by simp
  then have p: "put buf3 (base + j) NUL = Inr (buf3[base + j := NUL])" by (rule put_in_range)
  have "snprintf_hex buf base bsize w = Inr (buf3[base + j := NUL], j)"
    using False p1 p2 s p by (simp add: snprintf_hex_def Let_def tmp_def [symmetric])
  then show ?thesis using l3 j by simp
qed

lemma copy_str_in_range:
  assumes "length buf = 64"
  shows "\<exists>buf' i'. copy_str buf i s = Inr (buf', i') \<and> length buf' = 64 \<and> (i' \<le> 63 \<or> i' = i)"
  using assms
proof (induction s arbitrary: buf i)
  case Nil
  then show ?case by simp
next
  case (Cons c s)
  show ?case
  proof (cases "c \<noteq> NUL \<and> i < 63")
    case False
    then show ?thesis using Cons.prems by auto
  next
    case True
    then have "i < length buf" using Cons.prems by simp
    then have p: "put buf i c = Inr (buf[i := c])" by (rule put_in_range)
    have "length (buf[i := c]) = 64" using Cons.prems by simp
    then obtain buf' i' where "copy_str (buf[i := c]) (i + 1) s = Inr (buf', i')"
      "length buf' = 64" "i' \<le> 63 \<or> i' = i + 1"
      using Cons.IH by blast
    then show ?thesis using True p by auto
  qed
qed

lemma directive_in_range:
  assumes "length buf = 64" "i < 63"
  shows "\<exists>buf' i' k'. directive mem d ap k buf i = Inr (buf', i', k')
           \<and> length buf' = 64 \<and> i' \<le> 64"
proof -
  have sz: "int i + (64 - int i) \<le> 64" "0 < 64 - int i" using assms(2) by simp_all
  consider (d) "d = CHR ''d''" | (x) "d = CHR ''x''" | (s) "d = CHR ''s''" | (p) "d = CHR ''%''"
    | (other) "d \<noteq> CHR ''d''" "d \<noteq> CHR ''x''" "d \<noteq> CHR ''s''" "d \<noteq> CHR ''%''"
    by blast
  then show ?thesis
  proof cases
    case d
    obtain buf' j where "snprintf_int buf i (64 - int i) (ap k) = Inr (buf', j)"
      "length buf' = 64" "int j < 64 - int i"
      using snprintf_int_in_range [OF assms(1) sz] by blast
    then show ?thesis using d by (simp add: directive_def)
  next
    case x
    obtain buf' j where "snprintf_hex buf i (64 - int i) (ap k) = Inr (buf', j)"
      "length buf' = 64" "int j < 64 - int i"
      using snprintf_hex_in_range [OF assms(1) sz] by blast
    then show ?thesis using x by (simp add: directive_def)
  next
    case s
    obtain buf' i' where "copy_str buf i (if ap k = 0 then ''(null)'' else mem (ap k)) = Inr (buf', i')"
      "length buf' = 64" "i' \<le> 63 \<or> i' = i"
      using copy_str_in_range [OF assms(1)] by blast
    then show ?thesis using s assms(2) by (auto simp: directive_def)
  next
    case p
    have "put buf i CHR ''%'' = Inr (buf[i := CHR ''%''])"
      using assms by (intro put_in_range) simp
    then show ?thesis using p assms by (simp add: directive_def)
  next
    case other
    have p1: "put buf i CHR ''%'' = Inr (buf[i := CHR ''%''])"
      using assms by (intro put_in_range) simp
    have p2: "put (buf[i := CHR ''%'']) (i + 1) d = Inr (buf[i := CHR ''%'', i + 1 := d])"
      using assms by (intro put_in_range) simp
    show ?thesis using other p1 p2 assms by (simp add: directive_def)
  qed
qed

lemma format_loop_in_range:
  assumes "length buf = 64" "i \<le> 64"
  shows "\<exists>buf' i'. format_loop mem fmt ap k buf i = Inr (buf', i')
           \<and> length buf' = 64 \<and> i' \<le> 64"
  using assms
proof (induction mem fmt ap k buf i rule: format_loop.induct)
  case (1 mem ap k buf i)
  then show ?case by simp
next
  case (2 mem c ap k buf i)
  show ?case
  proof (cases "c = NUL \<or> \<not> i < 63 \<or> c = CHR ''%''")
    case True
    then show ?thesis using "2.prems" by auto
  next
    case False
    then have "put buf i c = Inr (buf[i := c])" using "2.prems" by (intro put_in_range) simp
    then show ?thesis using False "2.prems" by simp
  qed
next
  case (3 mem c d fmt ap k buf i)
  show ?case
  proof (cases "c = NUL \<or> \<not> i < 63")
    case True
    then show ?thesis using "3.prems" by auto
  next
    case go: False
    show ?thesis
    proof (cases "c \<noteq> CHR ''%''")
      case True
      have p: "put buf i c = Inr (buf[i := c])" using go "3.prems" by (intro put_in_range) simp
      have "\<exists>buf' i'. format_loop mem (d # fmt) ap k (buf[i := c]) (i + 1) = Inr (buf', i')
           \<and> length buf' = 64 \<and> i' \<le> 64"
        using go True p "3.prems" by (intro "3.IH"(1)) simp_all
      then show ?thesis using go True p by simp
    next
      case pc: False
      show ?thesis
      proof (cases "d = NUL")
        case True
        then show ?thesis using go pc "3.prems" by simp
      next
        case False
        obtain buf1 i1 k1 where dr: "directive mem d ap k buf i = Inr (buf1, i1, k1)"
          and l1: "length buf1 = 64" and b1: "i1 \<le> 64"
          using directive_in_range [of buf i] go "3.prems" by (metis linorder_not_less)
        have "\<exists>buf' i'. format_loop mem fmt ap k1 buf1 i1 = Inr (buf', i')
           \<and> length buf' = 64 \<and> i' \<le> 64"
          using go pc False dr l1 b1 by (intro "3.IH"(2) [OF _ _ _ dr refl refl]) simp_all
        then show ?thesis using go pc False dr by simp
      qed
    qed
  qed
qed

lemma format_msg_fault:
  assumes "format_msg env fmt ap = Inl f"
  shows "f = OutOfBounds 64"
proof -
  have "length (map (env_stack env) [0..<64]) = 64" by simp
  then obtain buf i where r: "format_loop (env_str env) fmt ap 0 (map (env_stack env) [0..<64]) 0
      = Inr (buf, i)" and l: "length buf = 64" and b: "i \<le> 64"
    using format_loop_in_range [of "map (env_stack env) [0..<64]" 0] by (metis zero_le)
  have "put buf i NUL = Inl f" using assms r by (simp add: format_msg_def)
  then show ?thesis using l b by (auto simp: put_def split: if_splits)
qed

text \<open>
  Claim C10. The claim: the formatting step stores every character at an index of at
  most 63 and the terminating NUL at an index of at most 63, also when an unrecognised
  directive begins at position 62. The code: the \<^verbatim>\<open>default\<close> branch stores \<^verbatim>\<open>'%'\<close> at 62
  and the directive character at 63 with no check, \<^verbatim>\<open>i\<close> becomes 64, the loop ends,
  and \<^verbatim>\<open>buf[i] = 0\<close> stores the NUL at index 64 of \<^verbatim>\<open>char buf[64]\<close>. The format below is
  62 times \<^verbatim>\<open>a\<close> followed by \<^verbatim>\<open>%q\<close>.
\<close>

theorem format_msg_terminator_out_of_bounds:
  "format_msg env0 (replicate 62 CHR ''a'' @ ''%q'') (\<lambda>_. 0) = Inl (OutOfBounds 64)
   \<and> klog_printf_level env0 (boot_state 1) 1 (replicate 62 CHR ''a'' @ ''%q'') (\<lambda>_. 0)
       = Inl (OutOfBounds 64)"
  by code_simp

text \<open>
  Claim C7. The claim: a message that renders to more than 63 characters is stored as the
  first 63 characters of the rendered text and a NUL. The code: \<^verbatim>\<open>snprintf_hex\<close> returns 0
  and writes nothing when its size is at most 2, that is when \<^verbatim>\<open>%x\<close> begins at position
  62, and the loop goes on with the rest of the format. For 62 times \<^verbatim>\<open>a\<close> followed by
  \<^verbatim>\<open>%xZ\<close> and the argument 1 the rendered text has 66 characters and its first 63 end in
  \<^verbatim>\<open>0\<close>; the stored message ends in \<^verbatim>\<open>Z\<close>.
\<close>

theorem truncation_drops_hex_directive:
  "63 < length (render_spec (env_str env0) (replicate 62 CHR ''a'' @ ''%xZ'') (\<lambda>_. 1) 0)
   \<and> take 63 (render_spec (env_str env0) (replicate 62 CHR ''a'' @ ''%xZ'') (\<lambda>_. 1) 0)
       = replicate 62 CHR ''a'' @ ''0''
   \<and> (case klog_printf_level env0 (boot_state 1) 1 (replicate 62 CHR ''a'' @ ''%xZ'') (\<lambda>_. 1) of
         Inl f \<Rightarrow> False
       | Inr st \<Rightarrow> map msg (written env0 (boot_state 1) st) = [replicate 62 CHR ''a'' @ ''Z'' @ [NUL]])"
  by code_simp

subsection \<open>The record layout\<close>

lemma length_le32 [simp]: "length (le32 w) = 4"
  by (simp add: le32_def)

lemma length_klog_entry_bytes [simp]: "length (klog_entry_bytes e) = 88"
  by (simp add: klog_entry_bytes_def)

lemma sizeof_klog_entry_eq: "sizeof_klog_entry = 88"
  by (simp add: sizeof_klog_entry_def)

lemma getklog_copy_step:
  "getklog_copy ok kbuf a cnt i out =
     (if i < cnt then
        if ok (word_of_int a + of_nat i * 88)
        then getklog_copy ok kbuf a cnt (Suc i)
               (out @ [(word_of_int a + of_nat i * 88, klog_entry_bytes (kbuf ! i))])
        else (- 1, out)
      else (int cnt, out))"
  by (subst getklog_copy.simps) (simp add: sizeof_klog_entry_eq Let_def)

lemma getklog_copy_transfers:
  assumes "getklog_copy ok kbuf a cnt i out = (r, out')" and "length out = i" and "i \<le> cnt"
  shows "out' = out @ map (\<lambda>j. (word_of_int a + of_nat j * 88, klog_entry_bytes (kbuf ! j)))
                       [i ..< length out']
         \<and> i \<le> length out' \<and> length out' \<le> cnt"
  using assms
proof (induction "cnt - i" arbitrary: i out)
  case 0
  then have "i = cnt" by simp
  then have "out' = out" using "0.prems"(1) by (simp add: getklog_copy_step)
  then show ?case using "0.prems" by simp
next
  case (Suc d)
  then have lt: "i < cnt" by simp
  let ?va = "word_of_int a + of_nat i * 88 :: uint"
  show ?case
  proof (cases "ok ?va")
    case False
    then have "out' = out" using Suc.prems(1) lt by (simp add: getklog_copy_step)
    then show ?thesis using Suc.prems by simp
  next
    case True
    let ?out = "out @ [(?va, klog_entry_bytes (kbuf ! i))]"
    have c: "getklog_copy ok kbuf a cnt (Suc i) ?out = (r, out')"
      using Suc.prems(1) lt True by (simp add: getklog_copy_step)
    have d: "d = cnt - Suc i" using Suc(2) by simp
    have l: "length ?out = Suc i" using Suc.prems(2) by simp
    have le: "Suc i \<le> cnt" using lt by simp
    note IH = Suc(1) [OF d c l le]
    then have i1: "Suc i \<le> length out'" and i2: "length out' \<le> cnt" by simp_all
    have u: "[i ..< length out'] = i # [Suc i ..< length out']"
      using i1 by (simp add: upt_rec)
    have "out' = ?out @ map (\<lambda>j. (word_of_int a + of_nat j * 88, klog_entry_bytes (kbuf ! j)))
                       [Suc i ..< length out']"
      using IH by blast
    then have "out' = out @ map (\<lambda>j. (word_of_int a + of_nat j * 88, klog_entry_bytes (kbuf ! j)))
                       [i ..< length out']"
      unfolding u by simp
    then show ?thesis using i1 i2 by simp
  qed
qed

lemma getklog_copy_return:
  assumes "getklog_copy ok kbuf a cnt i out = (r, out')" and "i \<le> cnt"
  shows "(r = - 1 \<and> (\<exists>j. i \<le> j \<and> j < cnt \<and> \<not> ok (word_of_int a + of_nat j * 88)))
       \<or> (r = int cnt \<and> (\<forall>j. i \<le> j \<and> j < cnt \<longrightarrow> ok (word_of_int a + of_nat j * 88)))"
  using assms
proof (induction "cnt - i" arbitrary: i out)
  case 0
  then have "i = cnt" by simp
  then have "r = int cnt" using "0.prems"(1) by (simp add: getklog_copy_step)
  moreover have "\<not> (i \<le> j \<and> j < cnt)" for j using \<open>i = cnt\<close> by arith
  ultimately show ?case by blast
next
  case (Suc d)
  then have lt: "i < cnt" by simp
  let ?va = "word_of_int a + of_nat i * 88 :: uint"
  show ?case
  proof (cases "ok ?va")
    case False
    then have "r = - 1" using Suc.prems(1) lt by (simp add: getklog_copy_step)
    then show ?thesis using False lt by blast
  next
    case True
    let ?out = "out @ [(?va, klog_entry_bytes (kbuf ! i))]"
    have c: "getklog_copy ok kbuf a cnt (Suc i) ?out = (r, out')"
      using Suc.prems(1) lt True by (simp add: getklog_copy_step)
    have d: "d = cnt - Suc i" using Suc(2) by simp
    have le: "Suc i \<le> cnt" using lt by simp
    from Suc(1) [OF d c le] show ?thesis
    proof
      assume "r = - 1 \<and> (\<exists>j. Suc i \<le> j \<and> j < cnt \<and> \<not> ok (word_of_int a + of_nat j * 88))"
      then obtain j where "r = - 1" "Suc i \<le> j" "j < cnt" "\<not> ok (word_of_int a + of_nat j * 88)"
        by blast
      then have "r = - 1 \<and> (\<exists>j. i \<le> j \<and> j < cnt \<and> \<not> ok (word_of_int a + of_nat j * 88))"
        using Suc_leD by blast
      then show ?thesis ..
    next
      assume a: "r = int cnt \<and> (\<forall>j. Suc i \<le> j \<and> j < cnt \<longrightarrow> ok (word_of_int a + of_nat j * 88))"
      have "ok (word_of_int a + of_nat j * 88)" if "i \<le> j" "j < cnt" for j
      proof (cases "j = i")
        case True
        then show ?thesis using \<open>ok ?va\<close> by simp
      next
        case False
        then have "Suc i \<le> j" using that by simp
        then show ?thesis using a that by blast
      qed
      then have "r = int cnt \<and> (\<forall>j. i \<le> j \<and> j < cnt \<longrightarrow> ok (word_of_int a + of_nat j * 88))"
        using a by blast
      then show ?thesis ..
    qed
  qed
qed

lemma klogdev_copy_step:
  "klogdev_copy ok ents cnt dst n i (88 * int i) out =
     (if i < cnt \<and> (of_nat i * 88 + 88 :: uint) \<le> word_of_int n then
        if ok (dst + of_nat i * 88)
        then klogdev_copy ok ents cnt dst n (Suc i) (88 * int (Suc i))
               (out @ [(dst + of_nat i * 88, klog_entry_bytes (ents ! i))])
        else (- 1, out)
      else (88 * int i, out))"
proof -
  have w: "(word_of_int (88 * int i) :: uint) = of_nat i * 88" by simp
  have s: "88 * int i + int sizeof_klog_entry = 88 * int (Suc i)"
    by (simp add: sizeof_klog_entry_eq)
  have "klogdev_copy ok ents cnt dst n i (88 * int i) out =
     (if i < cnt \<and> (of_nat i * 88 + 88 :: uint) \<le> word_of_int n then
        if \<not> ok (dst + of_nat i * 88) then (- 1, out)
        else klogdev_copy ok ents cnt dst n (i + 1) (88 * int i + int sizeof_klog_entry)
               (out @ [(dst + of_nat i * 88, klog_entry_bytes (ents ! i))])
      else (88 * int i, out))"
    by (subst klogdev_copy.simps) (simp only: w sizeof_klog_entry_eq of_nat_numeral)
  also have "\<dots> =
     (if i < cnt \<and> (of_nat i * 88 + 88 :: uint) \<le> word_of_int n then
        if ok (dst + of_nat i * 88)
        then klogdev_copy ok ents cnt dst n (Suc i) (88 * int (Suc i))
               (out @ [(dst + of_nat i * 88, klog_entry_bytes (ents ! i))])
        else (- 1, out)
      else (88 * int i, out))"
    unfolding s by simp
  finally show ?thesis .
qed

lemma klogdev_copy_transfers:
  assumes "klogdev_copy ok ents cnt dst n i (88 * int i) out = (r, out')"
    and "length out = i" and "i \<le> cnt"
  shows "out' = out @ map (\<lambda>j. (dst + of_nat j * 88, klog_entry_bytes (ents ! j)))
                       [i ..< length out']
         \<and> i \<le> length out' \<and> length out' \<le> cnt
         \<and> (r = - 1 \<or> r = 88 * int (length out'))"
  using assms
proof (induction "cnt - i" arbitrary: i out)
  case 0
  then have "i = cnt" by simp
  then have "out' = out" "r = 88 * int i" using "0.prems"(1) by (simp_all add: klogdev_copy_step)
  then show ?case using "0.prems" by simp
next
  case (Suc d)
  then have lt: "i < cnt" by simp
  show ?case
  proof (cases "(of_nat i * 88 + 88 :: uint) \<le> word_of_int n")
    case False
    then have "out' = out" "r = 88 * int i"
      using Suc.prems(1) by (simp_all add: klogdev_copy_step)
    then show ?thesis using Suc.prems by simp
  next
    case room: True
    show ?thesis
    proof (cases "ok (dst + of_nat i * 88)")
      case False
      then have "out' = out" "r = - 1"
        using Suc.prems(1) lt room by (simp_all add: klogdev_copy_step)
      then show ?thesis using Suc.prems by simp
    next
      case True
      let ?out = "out @ [(dst + of_nat i * 88, klog_entry_bytes (ents ! i))]"
      have c: "klogdev_copy ok ents cnt dst n (Suc i) (88 * int (Suc i)) ?out = (r, out')"
        using Suc.prems(1) lt room True by (simp only: klogdev_copy_step [of ok ents cnt dst n i] if_True simp_thms)
      have d: "d = cnt - Suc i" using Suc(2) by simp
      have l: "length ?out = Suc i" using Suc.prems(2) by simp
      have le: "Suc i \<le> cnt" using lt by simp
      note IH = Suc(1) [OF d c l le]
      then have i1: "Suc i \<le> length out'" and i2: "length out' \<le> cnt"
        and i3: "r = - 1 \<or> r = 88 * int (length out')" by simp_all
      have u: "[i ..< length out'] = i # [Suc i ..< length out']"
        using i1 by (simp add: upt_rec)
      have "out' = ?out @ map (\<lambda>j. (dst + of_nat j * 88, klog_entry_bytes (ents ! j)))
                       [Suc i ..< length out']"
        using IH by blast
      then have "out' = out @ map (\<lambda>j. (dst + of_nat j * 88, klog_entry_bytes (ents ! j)))
                       [i ..< length out']"
        unfolding u by simp
      then show ?thesis using i1 i2 i3 by simp
    qed
  qed
qed

text \<open>
  Claim C3, as amended. A record is laid out as sequence, timestamp-high, timestamp-low,
  core id, pid and level, four bytes each, followed by the 64 bytes of the message: 88
  bytes, which is \<^verbatim>\<open>sizeof(struct klog_entry)\<close>. Both boundaries transfer whole records in
  this layout: the copy loop of \<^verbatim>\<open>sys_getklog\<close> puts record \<open>j\<close> at \<open>buf_addr + 88 j\<close>,
  the copy loop of \<^verbatim>\<open>klogdev_read\<close> puts record \<open>j\<close> at \<open>dst + 88 j\<close> and returns 88 times
  the number of records transferred (or -1).
\<close>

theorem record_layout_at_boundaries:
  "length (klog_entry_bytes e) = 88 \<and> sizeof_klog_entry = 88
   \<and> klog_entry_bytes e
       = le32 (seq e) @ le32 (timestamp_hi e) @ le32 (timestamp_lo e) @ le32 (cpu e)
         @ le32 (pid e) @ le32 (level e) @ map (\<lambda>k. of_char (msg e ! k)) [0..<64]
   \<and> (getklog_copy ok kbuf buf_addr cnt 0 [] = (r, out) \<longrightarrow>
        out = map (\<lambda>j. (word_of_int buf_addr + of_nat j * 88, klog_entry_bytes (kbuf ! j)))
                [0 ..< length out]
        \<and> length out \<le> cnt)
   \<and> (klogdev_copy ok ents cnt dst n 0 0 [] = (r', out') \<longrightarrow>
        out' = map (\<lambda>j. (dst + of_nat j * 88, klog_entry_bytes (ents ! j))) [0 ..< length out']
        \<and> length out' \<le> cnt \<and> (r' = - 1 \<or> r' = 88 * int (length out')))"
proof (intro conjI impI)
  show "klog_entry_bytes e
       = le32 (seq e) @ le32 (timestamp_hi e) @ le32 (timestamp_lo e) @ le32 (cpu e)
         @ le32 (pid e) @ le32 (level e) @ map (\<lambda>k. of_char (msg e ! k)) [0..<64]"
    by (simp only: klog_entry_bytes_def)
next
  assume a: "getklog_copy ok kbuf buf_addr cnt 0 [] = (r, out)"
  from getklog_copy_transfers [OF a]
  show "out = map (\<lambda>j. (word_of_int buf_addr + of_nat j * 88, klog_entry_bytes (kbuf ! j)))
                [0 ..< length out]"
    and "length out \<le> cnt" by simp_all
next
  assume "klogdev_copy ok ents cnt dst n 0 0 [] = (r', out')"
  then have a: "klogdev_copy ok ents cnt dst n 0 (88 * int 0) [] = (r', out')" by simp
  from klogdev_copy_transfers [OF a]
  show "out' = map (\<lambda>j. (dst + of_nat j * 88, klog_entry_bytes (ents ! j))) [0 ..< length out']"
    and "length out' \<le> cnt" and "r' = - 1 \<or> r' = 88 * int (length out')" by simp_all
qed (simp_all add: sizeof_klog_entry_eq)

text \<open>Claim C3 as stated gives the layout 84 bytes; six fields of 4 bytes and 64 are 88.\<close>

theorem record_layout_84_counterexample:
  "length (klog_entry_bytes zero_entry) \<noteq> 84"
  by simp

theorem record_layout_at_boundaries_witness:
  "snd (getklog_copy (\<lambda>_. True) layout_fx 8192 3 0 [])
     = map (\<lambda>j. (8192 + of_nat j * 88, klog_entry_bytes (layout_fx ! j))) [0 ..< 3]
   \<and> klogdev_copy (\<lambda>_. True) layout_fx 3 8192 200 0 0 []
     = (176, map (\<lambda>j. (8192 + of_nat j * 88, klog_entry_bytes (layout_fx ! j))) [0 ..< 2])"
proof -
  obtain r out where a: "getklog_copy (\<lambda>_. True) layout_fx 8192 3 0 [] = (r, out)"
    by (cases "getklog_copy (\<lambda>_. True) layout_fx 8192 3 0 []")
  obtain r' out' where b: "klogdev_copy (\<lambda>_. True) layout_fx 3 8192 200 0 0 [] = (r', out')"
    by (cases "klogdev_copy (\<lambda>_. True) layout_fx 3 8192 200 0 0 []")
  have "length (snd (getklog_copy (\<lambda>_. True) layout_fx 8192 3 0 [])) = 3"
    by code_simp
  then have la: "length out = 3" using a by simp
  have "fst (klogdev_copy (\<lambda>_. True) layout_fx 3 8192 200 0 0 []) = 176
      \<and> length (snd (klogdev_copy (\<lambda>_. True) layout_fx 3 8192 200 0 0 [])) = 2"
    by code_simp
  then have lb: "r' = 176" "length out' = 2" using b by simp_all
  from record_layout_at_boundaries [of zero_entry "\<lambda>_. True" layout_fx 8192 3 r out
      layout_fx 8192 200 r' out'] a b
  show ?thesis unfolding la lb by simp
qed

subsection \<open>sys\_getklog\<close>

lemma getklog_range_check:
  assumes "0 < max_entries" "max_entries \<le> 1024" "0 \<le> buf_addr" "buf_addr < 2 ^ 31"
  shows "(buf_addr < 0 \<or> (word_of_int buf_addr :: uint) \<ge> sz
          \<or> (word_of_int buf_addr + word_of_int max_entries * of_nat sizeof_klog_entry :: uint) > sz)
         \<longleftrightarrow> \<not> buf_addr + 88 * max_entries \<le> uint sz"
proof -
  have b: "uint (word_of_int buf_addr :: uint) = buf_addr"
    using assms(3,4) by (simp add: uint_word_of_int)
  have e: "(word_of_int buf_addr + word_of_int max_entries * of_nat sizeof_klog_entry :: uint)
      = word_of_int (buf_addr + 88 * max_entries)"
    by (simp add: sizeof_klog_entry_eq)
  have u: "uint (word_of_int k :: uint) = k mod 2 ^ 32" for k
    by (simp add: uint_word_of_int)
  have "(buf_addr + 88 * max_entries) mod 2 ^ 32 = buf_addr + 88 * max_entries"
    using assms by (intro mod_pos_pos_trivial) simp_all
  then have s: "uint (word_of_int buf_addr + word_of_int max_entries * of_nat sizeof_klog_entry :: uint)
      = buf_addr + 88 * max_entries"
    unfolding e u .
  show ?thesis
    unfolding word_le_def word_less_def b s using assms by auto
qed

lemma sys_getklog_valid:
  assumes "0 < max_entries" "max_entries \<le> 1024" "0 \<le> buf_addr" "buf_addr < 2 ^ 31"
    and "buf_addr + 88 * max_entries \<le> uint sz"
  shows "sys_getklog PGSIZE st (Some buf_addr) (Some max_entries) sz (Some kbuf) ok =
     (case klog_snapshot st kbuf (min max_entries (int (PGSIZE div 88))) of
        Inl f \<Rightarrow> Inl f
      | Inr (st', kbuf', cnt) \<Rightarrow> Inr (getklog_copy ok kbuf' buf_addr cnt 0 []))"
proof -
  have c: "\<not> (buf_addr < 0 \<or> (word_of_int buf_addr :: uint) \<ge> sz
          \<or> (word_of_int buf_addr + word_of_int max_entries * of_nat sizeof_klog_entry :: uint) > sz)"
    using getklog_range_check [OF assms(1-4), of sz] assms(5) by simp
  then have c1: "\<not> (buf_addr < 0 \<or> (word_of_int buf_addr :: uint) \<ge> sz)"
    and c2: "\<not> (word_of_int buf_addr + word_of_int max_entries * of_nat sizeof_klog_entry :: uint) > sz"
    by blast+
  have m: "\<not> (max_entries \<le> 0 \<or> max_entries > 1024)" using assms(1,2) by simp
  have mn: "(if max_entries > int (PGSIZE div 88) then int (PGSIZE div 88) else max_entries)
      = min max_entries (int (PGSIZE div 88))"
    by (simp add: min_def)
  show ?thesis
    unfolding sys_getklog_def option.case if_not_P [OF m] if_not_P [OF c1] if_not_P [OF c2]
    unfolding sizeof_klog_entry_eq Let_def mn ..
qed

lemma sys_getklog_invalid:
  assumes "arg0 = None \<or> arg1 = None \<or> kalloc = None
    \<or> (\<exists>buf_addr max_entries. arg0 = Some buf_addr \<and> arg1 = Some max_entries
          \<and> buf_addr < 2 ^ 31
          \<and> (max_entries \<le> 0 \<or> max_entries > 1024 \<or> buf_addr < 0
               \<or> \<not> buf_addr + 88 * max_entries \<le> uint sz))"
  shows "sys_getklog PGSIZE st arg0 arg1 sz kalloc ok = Inr (- 1, [])"
proof (cases arg0)
  case None
  then show ?thesis by (simp add: sys_getklog_def)
next
  case a0: (Some buf_addr)
  show ?thesis
  proof (cases arg1)
    case None
    then show ?thesis using a0 by (simp add: sys_getklog_def)
  next
    case a1: (Some max_entries)
    show ?thesis
    proof (cases "max_entries \<le> 0 \<or> max_entries > 1024")
      case True
      then show ?thesis using a0 a1 by (simp add: sys_getklog_def)
    next
      case m: False
      show ?thesis
      proof (cases "buf_addr < 0")
        case True
        then show ?thesis using a0 a1 m by (simp add: sys_getklog_def)
      next
        case nn: False
        show ?thesis
        proof (cases "buf_addr < 2 ^ 31 \<and> \<not> buf_addr + 88 * max_entries \<le> uint sz")
          case True
          then have "buf_addr < 0 \<or> (word_of_int buf_addr :: uint) \<ge> sz
              \<or> (word_of_int buf_addr + word_of_int max_entries * of_nat sizeof_klog_entry :: uint) > sz"
            using getklog_range_check [of max_entries buf_addr sz] m nn by simp
          then show ?thesis using a0 a1 m by (auto simp: sys_getklog_def)
        next
          case False
          then have "kalloc = None" using assms a0 a1 m nn by auto
          then show ?thesis using a0 a1 m by (simp add: sys_getklog_def)
        qed
      qed
    qed
  qed
qed

text \<open>
  Claim C4. The claim: every call of \<^verbatim>\<open>sys_getklog\<close> returns -1 on a bad argument, a failed
  allocation or a failed copy, and otherwise the number of records written, at most the
  effective ceiling. The code: with valid arguments and every ring empty (as after
  \<^verbatim>\<open>klog_clear\<close>) the call reaches \<^verbatim>\<open>klog_snapshot\<close> with \<open>count = 0\<close>, whose sort runs off
  the end of the page (claim C9) instead of returning 0. For every other state the claim
  holds: \<open>sys_getklog_result\<close> below.
\<close>

theorem sys_getklog_empty_log_overruns:
  assumes "0 < max_entries" "max_entries \<le> 1024" "0 \<le> buf_addr" "buf_addr < 2 ^ 31"
    and "buf_addr + 88 * max_entries \<le> uint sz"
    and "length kbuf < 2 ^ 32 - 1"
  shows "sys_getklog PGSIZE (klog_clear st) (Some buf_addr) (Some max_entries) sz (Some kbuf) ok
           = Inl (OutOfBounds (length kbuf))"
proof -
  have "\<forall>log \<in> set (cpu_logs (klog_clear st)). head log = 0"
    by (simp add: klog_clear_def)
  then have "klog_snapshot (klog_clear st) kbuf (min max_entries (int (PGSIZE div 88)))
      = Inl (OutOfBounds (length kbuf))"
    using assms(6) by (rule klog_snapshot_heads_zero)
  then show ?thesis unfolding sys_getklog_valid [OF assms(1-5)] by simp
qed

theorem sys_getklog_empty_log_overruns_witness:
  "sys_getklog 4096 (klog_clear (boot_state 2)) (Some 8192) (Some 32) 16384
     (Some (replicate 46 zero_entry)) (\<lambda>_. True) = Inl (OutOfBounds 46)"
  using sys_getklog_empty_log_overruns [of 32 8192 16384 "replicate 46 zero_entry" 4096
      "boot_state 2" "\<lambda>_. True"]
  by simp

lemma sys_getklog_result:
  assumes nonempty: "\<exists>log \<in> set (cpu_logs st). head log \<noteq> 0"
    and page: "88 \<le> PGSIZE" "\<And>kbuf. kalloc = Some kbuf \<Longrightarrow> length kbuf = PGSIZE div 88"
    and range: "buf_addr < 2 ^ 31"
  shows "\<exists>r out. sys_getklog PGSIZE st (Some buf_addr) (Some max_entries) sz kalloc ok = Inr (r, out)
     \<and> (if max_entries \<le> 0 \<or> max_entries > 1024 \<or> buf_addr < 0
            \<or> \<not> buf_addr + 88 * max_entries \<le> uint sz \<or> kalloc = None
            \<or> (\<exists>j < length (collected (cpu_logs st) (min max_entries (int (PGSIZE div 88)))).
                  \<not> ok (word_of_int buf_addr + of_nat j * 88))
         then r = - 1
         else r = int (length (collected (cpu_logs st) (min max_entries (int (PGSIZE div 88)))))
              \<and> 0 \<le> r \<and> r \<le> min max_entries (int (PGSIZE div 88)))"
proof (cases "max_entries \<le> 0 \<or> max_entries > 1024 \<or> buf_addr < 0
            \<or> \<not> buf_addr + 88 * max_entries \<le> uint sz \<or> kalloc = None")
  case True
  have "sys_getklog PGSIZE st (Some buf_addr) (Some max_entries) sz kalloc ok = Inr (- 1, [])"
    using True range by (intro sys_getklog_invalid) auto
  moreover have "max_entries \<le> 0 \<or> max_entries > 1024 \<or> buf_addr < 0
            \<or> \<not> buf_addr + 88 * max_entries \<le> uint sz \<or> kalloc = None
            \<or> (\<exists>j < length (collected (cpu_logs st) (min max_entries (int (PGSIZE div 88)))).
                  \<not> ok (word_of_int buf_addr + of_nat j * 88))"
    using True by blast
  ultimately show ?thesis by (simp only: if_P) blast
next
  case False
  then obtain kbuf where k: "kalloc = Some kbuf" by auto
  define m where "m = min max_entries (int (PGSIZE div 88))"
  define xs where "xs = collected (cpu_logs st) m"
  have v: "0 < max_entries" "max_entries \<le> 1024" "0 \<le> buf_addr"
    "buf_addr + 88 * max_entries \<le> uint sz"
    using False by simp_all
  have "1 \<le> PGSIZE div 88" using page(1) by (simp add: Suc_le_eq div_greater_zero_iff)
  then have m0: "0 < m" using v(1) by (simp add: m_def)
  have ml: "nat m \<le> length kbuf" using page(2) [OF k] by (simp add: m_def)
  have m31: "m < 2 ^ 31" using v(2) by (simp add: m_def)
  have ne: "xs \<noteq> []" unfolding xs_def using nonempty m0 by (rule collected_nonempty)
  have lx: "length xs \<le> nat m" by (simp add: xs_def collected_def)
  have snap: "klog_snapshot st kbuf m = Inr (st, sort_passes xs @ drop (length xs) kbuf, length xs)"
    unfolding xs_def using ml ne [unfolded xs_def] m31 by (rule klog_snapshot_collected)
  obtain r out where c:
    "getklog_copy ok (sort_passes xs @ drop (length xs) kbuf) buf_addr (length xs) 0 [] = (r, out)"
    by (cases "getklog_copy ok (sort_passes xs @ drop (length xs) kbuf) buf_addr (length xs) 0 []")
  have s: "sys_getklog PGSIZE st (Some buf_addr) (Some max_entries) sz kalloc ok = Inr (r, out)"
    unfolding k sys_getklog_valid [OF v(1,2,3) range v(4)] m_def [symmetric] snap using c by simp
  have bound: "int (length xs) \<le> m" using lx m0 by simp
  from getklog_copy_return [OF c] have
    "(r = - 1 \<and> (\<exists>j < length xs. \<not> ok (word_of_int buf_addr + of_nat j * 88)))
     \<or> (r = int (length xs) \<and> \<not> (\<exists>j < length xs. \<not> ok (word_of_int buf_addr + of_nat j * 88)))"
    by auto
  then show ?thesis using s False bound unfolding xs_def m_def by auto
qed

end
